theory Spec2Isabelle
  imports Main "HOL-Library.While_Combinator"
begin

section \<open>Python values shared by the modules\<close>

text \<open>
  The exceptions the modelled functions can raise. \<open>IndexError\<close> and \<open>KeyError\<close> are
  raised by Python itself (a list index out of range, a missing dictionary key);
  \<open>ValueError\<close> by \<open>int(s, base=16)\<close>; \<open>LexerError\<close> is the toolkit's own exception,
  imported from \<open>parser.py\<close>.
\<close>

datatype error = IndexError | KeyError | ValueError | LexerError

text \<open>
  \<open>xs[i]\<close> on a Python list: a negative index counts from the end of the list, and
  an index outside \<open>-len(xs) .. len(xs) - 1\<close> raises \<open>IndexError\<close>.
\<close>

definition py_index :: "'a list \<Rightarrow> int \<Rightarrow> error + 'a" where
  "py_index xs i =
     (if 0 \<le> i \<and> i < int (length xs) then Inr (xs ! nat i)
      else if i < 0 \<and> - int (length xs) \<le> i then Inr (xs ! nat (int (length xs) + i))
      else Inl IndexError)"

text \<open>
  \<open>parser.py\<close> is not among the sources. The parsing table that \<open>regexpr.py\<close> holds
  was printed by the generator from these constants: its only ACCEPT cell is
  \<open>(3, -1): (2, 0)\<close>, so \<open>END\<close> is \<open>-1\<close>; the terminals allocated by
  \<open>TERMINALS.add()\<close> are \<open>-3, -4, \<dots>\<close> in the order of allocation.
\<close>

definition END :: int where "END = -1"

definition BAR :: int where "BAR = -3"
definition ASTERISK :: int where "ASTERISK = -4"
definition PLUS :: int where "PLUS = -5"
definition QUESTION :: int where "QUESTION = -6"
definition CHAR_terminal :: int where "CHAR_terminal = -7"
definition LPAREN :: int where "LPAREN = -8"
definition RPAREN :: int where "RPAREN = -9"
definition LSQUARE :: int where "LSQUARE = -10"
definition RSQUARE :: int where "RSQUARE = -11"
definition CARET :: int where "CARET = -12"
definition HYPHEN :: int where "HYPHEN = -13"

section \<open>lexer.py: the runtime lexer\<close>

text \<open>
  \<open>Lexer.__init__\<close> stores the transition table (a dictionary keyed by
  \<open>(state, byte)\<close>), the initial state, the outputs dictionary and the source, and
  sets \<open>position\<close> to 0. \<open>position\<close> only ever grows, so it is a \<open>nat\<close>.
\<close>

record lexer =
  lexer_transitions :: "int \<times> int \<rightharpoonup> int"
  lexer_initial_state :: int
  lexer_outputs :: "int \<rightharpoonup> int"
  lexer_source :: string
  lexer_position :: nat

text \<open>
  The \<open>for c in self.source[old_position:]\<close> loop of \<open>get_next_token\<close>. The first
  argument is the part of the source still to be read; \<open>lexeme\<close> is \<open>None\<close> until an
  accepting state has been seen. A missing key is the \<open>break\<close>.
\<close>

fun scan :: "lexer \<Rightarrow> string \<Rightarrow> int \<Rightarrow> nat \<Rightarrow> int option \<Rightarrow> nat \<Rightarrow> int option \<times> nat" where
  "scan lx [] state position lexeme new_position = (lexeme, new_position)"
| "scan lx (c # cs) state position lexeme new_position =
     (case lexer_transitions lx (state, of_char c) of
        None \<Rightarrow> (lexeme, new_position)
      | Some next_state \<Rightarrow>
          (case lexer_outputs lx next_state of
             Some out \<Rightarrow> scan lx cs next_state (position + 1) (Some out) (position + 1)
           | None \<Rightarrow> scan lx cs next_state (position + 1) lexeme new_position))"

text \<open>
  \<open>get_next_token\<close> returns the token \<open>(terminal, value)\<close> and leaves the lexer with
  its new position; \<open>raise LexerError\<close> is \<open>Inl LexerError\<close>.
\<close>

definition get_next_token :: "lexer \<Rightarrow> error + ((int \<times> string option) \<times> lexer)" where
  "get_next_token lx =
     (if lexer_position lx \<ge> length (lexer_source lx) then Inr ((END, None), lx)
      else
        let state = lexer_initial_state lx;
            old_position = lexer_position lx;
            (lexeme0, new_position0) =
               (case lexer_outputs lx state of
                  Some out \<Rightarrow> (Some out, old_position + 1)
                | None \<Rightarrow> (None, old_position));
            (lexeme, new_position) =
               scan lx (drop old_position (lexer_source lx)) state old_position
                 lexeme0 new_position0
        in case lexeme of
             None \<Rightarrow> Inl LexerError
           | Some l \<Rightarrow>
               Inr ((l, Some (take (new_position - old_position)
                                (drop old_position (lexer_source lx)))),
                    lx\<lparr>lexer_position := new_position\<rparr>))"

section \<open>regexpr.py: the hand-written lexer of the regular-expression language\<close>

definition SPECIAL_CHARS :: "string \<rightharpoonup> int" where
  "SPECIAL_CHARS = map_of
     [(''|'', BAR), (''*'', ASTERISK), (''+'', PLUS), (''?'', QUESTION),
      (''('', LPAREN), ('')'', RPAREN), (''['', LSQUARE), ('']'', RSQUARE),
      (''^'', CARET), (''-'', HYPHEN)]"

definition HEXADECIMAL_CHARS :: string where
  "HEXADECIMAL_CHARS = ''0123456789abcdefABCDEF''"

text \<open>
  \<open>int('0x' + s, base=16)\<close> on a string of hexadecimal digits; anything else is a
  \<open>ValueError\<close> here. The lexer calls it with exactly two hexadecimal digits.
\<close>

definition hex_digit :: "char \<Rightarrow> int option" where
  "hex_digit c =
     (let n = (of_char c :: int)
      in if 48 \<le> n \<and> n \<le> 57 then Some (n - 48)
         else if 97 \<le> n \<and> n \<le> 102 then Some (n - 87)
         else if 65 \<le> n \<and> n \<le> 70 then Some (n - 55)
         else None)"

fun hex_value :: "int \<Rightarrow> string \<Rightarrow> error + int" where
  "hex_value acc [] = Inr acc"
| "hex_value acc (c # cs) =
     (case hex_digit c of None \<Rightarrow> Inl ValueError | Some d \<Rightarrow> hex_value (16 * acc + d) cs)"

definition backslash :: char where "backslash = CHR 0x5C"

definition get_codepoint :: "string \<Rightarrow> error + int" where
  "get_codepoint c =
     (if c = [backslash, CHR ''n''] then Inr 10
      else if c = [backslash, CHR ''t''] then Inr 9
      else if take 2 c = [backslash, CHR ''x''] then
        (if drop 2 c = [] then Inl ValueError else hex_value 0 (drop 2 c))
      else if take 1 c = [backslash] then
        (case drop 1 c of [] \<Rightarrow> Inl IndexError | d # _ \<Rightarrow> Inr (of_char d))
      else (case c of [] \<Rightarrow> Inl IndexError | d # _ \<Rightarrow> Inr (of_char d)))"

text \<open>
  The four member functions \<open>state0 .. state3\<close>: each takes the consumed character and
  returns the next state, \<open>None\<close> (the token is complete) or raises \<open>LexerError\<close>.
\<close>

datatype lex_state = State0 | State1 | State2 | State3

fun lex_step :: "lex_state \<Rightarrow> char \<Rightarrow> error + lex_state option" where
  "lex_step State0 c = (if c = backslash then Inr (Some State1) else Inr None)"
| "lex_step State1 c = (if c = CHR ''x'' then Inr (Some State2) else Inr None)"
| "lex_step State2 c =
     (if c \<in> set HEXADECIMAL_CHARS then Inr (Some State3) else Inl LexerError)"
| "lex_step State3 c =
     (if c \<in> set HEXADECIMAL_CHARS then Inr None else Inl LexerError)"

record regex_lexer =
  regex_source :: string
  regex_position :: nat

text \<open>
  The loop \<open>while state is not None: state = state(self.consume())\<close>. The second
  argument is the source from \<open>position\<close> on; \<open>consume\<close> reads
  \<open>self.source[self.position]\<close>, which raises \<open>IndexError\<close> once the source is
  used up, and then adds one to the position. The result is the position after the
  token.
\<close>

fun lex_run :: "lex_state \<Rightarrow> string \<Rightarrow> nat \<Rightarrow> error + nat" where
  "lex_run st [] position = Inl IndexError"
| "lex_run st (c # cs) position =
     (case lex_step st c of
        Inl e \<Rightarrow> Inl e
      | Inr None \<Rightarrow> Inr (position + 1)
      | Inr (Some st') \<Rightarrow> lex_run st' cs (position + 1))"

definition lex :: "regex_lexer \<Rightarrow> error + ((int \<times> int option) \<times> regex_lexer)" where
  "lex lx =
     (if regex_position lx \<ge> length (regex_source lx) then Inr ((END, None), lx)
      else
        let prev_position = regex_position lx
        in case lex_run State0 (drop prev_position (regex_source lx)) prev_position of
             Inl e \<Rightarrow> Inl e
           | Inr position \<Rightarrow>
               (let val = take (position - prev_position)
                               (drop prev_position (regex_source lx))
                in case get_codepoint val of
                     Inl e \<Rightarrow> Inl e
                   | Inr cp \<Rightarrow>
                       Inr ((case SPECIAL_CHARS val of Some t \<Rightarrow> t | None \<Rightarrow> CHAR_terminal, Some cp),
                            lx\<lparr>regex_position := position\<rparr>)))"

section \<open>Loops\<close>

text \<open>
  A \<open>while\<close> loop of the source runs on the loop's variables. Its body either goes on
  with new values, leaves the function with a \<open>return\<close>, or raises. \<open>run_loop\<close> is
  \<open>None\<close> when the loop never ends.
\<close>

datatype ('s, 'r) loop = Running 's | Returned 'r | Raised error

definition run_loop :: "('s \<Rightarrow> bool) \<Rightarrow> ('s \<Rightarrow> ('s, 'r) loop) \<Rightarrow> 's \<Rightarrow> ('s, 'r) loop option" where
  "run_loop guard body s =
     while_option (\<lambda>st. case st of Running s \<Rightarrow> guard s | _ \<Rightarrow> False)
                  (\<lambda>st. case st of Running s \<Rightarrow> body s | _ \<Rightarrow> st)
                  (Running s)"

section \<open>fsa.py: deterministic automata\<close>

definition NUM_CHARS :: nat where "NUM_CHARS = 256"

definition EPSILON :: int where "EPSILON = int NUM_CHARS"

text \<open>
  \<open>transitions\<close> is a list of rows, one per state, each a list of \<open>NUM_CHARS\<close> entries;
  \<open>outputs\<close> is a dictionary from states to sets of terminal tags.
\<close>

record dfa =
  dfa_transitions :: "int list list"
  dfa_outputs :: "int \<rightharpoonup> int set"
  dfa_initial_state :: int

definition DFA :: dfa where
  "DFA = \<lparr>dfa_transitions = [], dfa_outputs = Map.empty, dfa_initial_state = -1\<rparr>"

definition add_state :: "dfa \<Rightarrow> int \<times> dfa" where
  "add_state d =
     (int (length (dfa_transitions d)),
      d\<lparr>dfa_transitions := dfa_transitions d @ [replicate NUM_CHARS (-1)]\<rparr>)"

text \<open>\<open>self.outputs.get(state, set())\<close>\<close>

definition dfa_get_outputs :: "dfa \<Rightarrow> int \<Rightarrow> int set" where
  "dfa_get_outputs d state = (case dfa_outputs d state of None \<Rightarrow> {} | Some tags \<Rightarrow> tags)"

text \<open>\<open>self.transitions[state][c]\<close>, both indexings as Python does them.\<close>

definition dfa_next :: "dfa \<Rightarrow> int \<Rightarrow> nat \<Rightarrow> error + int" where
  "dfa_next d state c =
     (case py_index (dfa_transitions d) state of
        Inl e \<Rightarrow> Inl e
      | Inr row \<Rightarrow> py_index row (int c))"

text \<open>\<open>self.transitions[state][symbol] = v\<close>\<close>

definition dfa_set_transition :: "dfa \<Rightarrow> int \<Rightarrow> nat \<Rightarrow> int \<Rightarrow> error + dfa" where
  "dfa_set_transition d state symbol v =
     (let n = int (length (dfa_transitions d)); j = (if state < 0 then n + state else state)
      in if 0 \<le> j \<and> j < n then
           (let row = dfa_transitions d ! nat j
            in if symbol < length row then
                 Inr (d\<lparr>dfa_transitions := (dfa_transitions d)[nat j := row[symbol := v]]\<rparr>)
               else Inl IndexError)
         else Inl IndexError)"

subsection \<open>is_sink_state\<close>

text \<open>
  The \<open>for c in range(0, NUM_CHARS)\<close> loop of \<open>is_sink_state\<close>: every entry of the
  row of \<open>state\<close> that is not yet explored joins the frontier.
\<close>

fun sink_symbols :: "dfa \<Rightarrow> int \<Rightarrow> int set \<Rightarrow> nat list \<Rightarrow> int set \<Rightarrow> error + int set" where
  "sink_symbols d state explored [] frontier = Inr frontier"
| "sink_symbols d state explored (c # cs) frontier =
     (case dfa_next d state c of
        Inl e \<Rightarrow> Inl e
      | Inr next_state \<Rightarrow>
          sink_symbols d state explored cs
            (if next_state \<notin> explored then insert next_state frontier else frontier))"

text \<open>
  \<open>frontier\<close> is a Python set and \<open>frontier.pop()\<close> removes an arbitrary element of it.
  Which one is not specified, so the choice is a parameter \<open>pop\<close> of the model.
\<close>

definition sink_body :: "(int set \<Rightarrow> int) \<Rightarrow> dfa \<Rightarrow> int set \<times> int set \<Rightarrow> (int set \<times> int set, bool) loop" where
  "sink_body pop d = (\<lambda>(explored, frontier).
     let state = pop frontier;
         frontier = frontier - {state};
         explored = insert state explored
     in if dfa_get_outputs d state \<noteq> {} then Returned False
        else (case sink_symbols d state explored [0..<NUM_CHARS] frontier of
                Inl e \<Rightarrow> Raised e
              | Inr frontier \<Rightarrow> Running (explored, frontier)))"

definition is_sink_state :: "(int set \<Rightarrow> int) \<Rightarrow> dfa \<Rightarrow> int \<Rightarrow> (error + bool) option" where
  "is_sink_state pop d state =
     (case run_loop (\<lambda>(explored, frontier). frontier \<noteq> {}) (sink_body pop d) ({}, {state}) of
        None \<Rightarrow> None
      | Some (Running _) \<Rightarrow> Some (Inr True)
      | Some (Returned r) \<Rightarrow> Some (Inr r)
      | Some (Raised e) \<Rightarrow> Some (Inl e))"

subsection \<open>The work-list loop of union and get_dfa\<close>

text \<open>
  \<open>DFA.union\<close> and \<open>NFA.get_dfa\<close> are the same loop over different keys: pairs of
  states for \<open>union\<close>, frozen sets of states for \<open>get_dfa\<close>. The loop's variables are
  the stack \<open>frontier\<close> (its head is the top, the end of the Python list), the
  dictionary \<open>state_map\<close> from keys to states of the new automaton, and the new
  automaton \<open>dfa\<close>.
\<close>

record 'k builder =
  builder_frontier :: "'k list"
  builder_state_map :: "'k \<rightharpoonup> int"
  builder_dfa :: dfa

text \<open>
  \<open>if next not in state_map: state_map[next] = dfa.add_state(); frontier.append(next)\<close>
\<close>

definition intern :: "'k \<Rightarrow> 'k builder \<Rightarrow> 'k builder" where
  "intern next_key b =
     (if next_key \<notin> dom (builder_state_map b) then
        (let (state, d) = add_state (builder_dfa b)
         in \<lparr>builder_frontier = next_key # builder_frontier b,
             builder_state_map = (builder_state_map b)(next_key \<mapsto> state),
             builder_dfa = d\<rparr>)
      else b)"

text \<open>\<open>dfa.transitions[state_map[key]][symbol] = state_map[next]\<close>\<close>

definition link :: "'k \<Rightarrow> nat \<Rightarrow> 'k \<Rightarrow> 'k builder \<Rightarrow> error + 'k builder" where
  "link key symbol next_key b =
     (case builder_state_map b key of
        None \<Rightarrow> Inl KeyError
      | Some state \<Rightarrow>
          (case builder_state_map b next_key of
             None \<Rightarrow> Inl KeyError
           | Some v \<Rightarrow>
               (case dfa_set_transition (builder_dfa b) state symbol v of
                  Inl e \<Rightarrow> Inl e
                | Inr d \<Rightarrow> Inr (b\<lparr>builder_dfa := d\<rparr>))))"

text \<open>
  The \<open>for symbol in range(0, NUM_CHARS)\<close> loop; \<open>successor key symbol\<close> is the key
  that the source calls \<open>next_pair\<close> or \<open>next_states\<close>.
\<close>

fun symbols_loop :: "('k \<Rightarrow> nat \<Rightarrow> error + 'k) \<Rightarrow> 'k \<Rightarrow> nat list \<Rightarrow> 'k builder \<Rightarrow> error + 'k builder" where
  "symbols_loop successor key [] b = Inr b"
| "symbols_loop successor key (symbol # rest) b =
     (case successor key symbol of
        Inl e \<Rightarrow> Inl e
      | Inr next_key \<Rightarrow>
          (case link key symbol next_key (intern next_key b) of
             Inl e \<Rightarrow> Inl e
           | Inr b' \<Rightarrow> symbols_loop successor key rest b'))"

text \<open>
  One turn of the \<open>while len(frontier) > 0\<close> loop: pop a key, run the loop over the
  symbols, then \<open>emit\<close> the outputs of the key at its state.
\<close>

definition explore_body ::
  "('k \<Rightarrow> nat \<Rightarrow> error + 'k) \<Rightarrow> ('k \<Rightarrow> int \<Rightarrow> dfa \<Rightarrow> dfa) \<Rightarrow> 'k builder \<Rightarrow> ('k builder, dfa) loop" where
  "explore_body successor emit b =
     (case builder_frontier b of
        [] \<Rightarrow> Raised IndexError
      | key # rest \<Rightarrow>
          (case symbols_loop successor key [0..<NUM_CHARS] (b\<lparr>builder_frontier := rest\<rparr>) of
             Inl e \<Rightarrow> Raised e
           | Inr b' \<Rightarrow>
               (case builder_state_map b' key of
                  None \<Rightarrow> Raised KeyError
                | Some state \<Rightarrow> Running (b'\<lparr>builder_dfa := emit key state (builder_dfa b')\<rparr>))))"

definition explore ::
  "('k \<Rightarrow> nat \<Rightarrow> error + 'k) \<Rightarrow> ('k \<Rightarrow> int \<Rightarrow> dfa \<Rightarrow> dfa) \<Rightarrow> 'k \<Rightarrow> (error + dfa) option" where
  "explore successor emit key0 =
     (let (state0, d0) = add_state DFA;
          b0 = \<lparr>builder_frontier = [key0],
                builder_state_map = [key0 \<mapsto> state0],
                builder_dfa = d0\<lparr>dfa_initial_state := state0\<rparr>\<rparr>
      in case run_loop (\<lambda>b. builder_frontier b \<noteq> []) (explore_body successor emit) b0 of
           None \<Rightarrow> None
         | Some (Running b) \<Rightarrow> Some (Inr (builder_dfa b))
         | Some (Returned d) \<Rightarrow> Some (Inr d)
         | Some (Raised e) \<Rightarrow> Some (Inl e))"

subsection \<open>union\<close>

text \<open>
  \<open>next_pair = lhs.transitions[pair[0]][symbol], rhs.transitions[pair[1]][symbol]\<close>
\<close>

definition union_successor :: "dfa \<Rightarrow> dfa \<Rightarrow> int \<times> int \<Rightarrow> nat \<Rightarrow> error + int \<times> int" where
  "union_successor lhs rhs pair symbol =
     (case dfa_next lhs (fst pair) symbol of
        Inl e \<Rightarrow> Inl e
      | Inr p \<Rightarrow>
          (case dfa_next rhs (snd pair) symbol of
             Inl e \<Rightarrow> Inl e
           | Inr q \<Rightarrow> Inr (p, q)))"

text \<open>
  The outputs of a pair: \<open>dfa.outputs[state]\<close> is created empty if absent and
  updated with both components' outputs, when one of them is not empty.
\<close>

definition union_emit :: "dfa \<Rightarrow> dfa \<Rightarrow> int \<times> int \<Rightarrow> int \<Rightarrow> dfa \<Rightarrow> dfa" where
  "union_emit lhs rhs pair state d =
     (let lhs_outputs = dfa_get_outputs lhs (fst pair);
          rhs_outputs = dfa_get_outputs rhs (snd pair)
      in if lhs_outputs \<noteq> {} \<or> rhs_outputs \<noteq> {} then
           d\<lparr>dfa_outputs := (dfa_outputs d)(state \<mapsto>
                (case dfa_outputs d state of None \<Rightarrow> {} | Some tags \<Rightarrow> tags)
                  \<union> lhs_outputs \<union> rhs_outputs)\<rparr>
         else d)"

definition union :: "dfa \<Rightarrow> dfa \<Rightarrow> (error + dfa) option" where
  "union lhs rhs =
     explore (union_successor lhs rhs) (union_emit lhs rhs)
       (dfa_initial_state lhs, dfa_initial_state rhs)"

section \<open>fsa.py: non-deterministic automata\<close>

text \<open>
  \<open>transitions\<close> is a dictionary from \<open>(state, symbol)\<close> to a set of states. It is
  kept as the list of its items in insertion order, which is the order in which
  \<open>transitions.items()\<close> yields them; each set of states is the list of its members.
\<close>

record nfa =
  nfa_next_state :: int
  nfa_transitions :: "((int \<times> int) \<times> int list) list"
  nfa_outputs :: "int \<rightharpoonup> int set"
  nfa_initial_state :: int

definition NFA :: nfa where
  "NFA = \<lparr>nfa_next_state = -1, nfa_transitions = [], nfa_outputs = Map.empty,
          nfa_initial_state = -1\<rparr>"

definition nfa_add_state :: "nfa \<Rightarrow> int \<times> nfa" where
  "nfa_add_state n = (nfa_next_state n + 1, n\<lparr>nfa_next_state := nfa_next_state n + 1\<rparr>)"

text \<open>
  \<open>add_transition\<close>: a new key gets the one-element set; an old key's set gets the
  new member unless it has it already.
\<close>

fun alist_add :: "'k \<Rightarrow> 'v \<Rightarrow> ('k \<times> 'v list) list \<Rightarrow> ('k \<times> 'v list) list" where
  "alist_add key v [] = [(key, [v])]"
| "alist_add key v ((k, vs) # rest) =
     (if k = key then (k, if v \<in> set vs then vs else vs @ [v]) # rest
      else (k, vs) # alist_add key v rest)"

definition add_transition :: "int \<Rightarrow> int \<Rightarrow> int \<Rightarrow> nfa \<Rightarrow> nfa" where
  "add_transition old_state new_state symbol n =
     n\<lparr>nfa_transitions := alist_add (old_state, symbol) new_state (nfa_transitions n)\<rparr>"

text \<open>\<open>self.transitions.get((state, symbol), [])\<close>\<close>

definition nfa_get :: "nfa \<Rightarrow> int \<Rightarrow> int \<Rightarrow> int list" where
  "nfa_get n state symbol =
     (case map_of (nfa_transitions n) (state, symbol) of None \<Rightarrow> [] | Some states \<Rightarrow> states)"

text \<open>The states that occur as a target in the dictionary: a finite set.\<close>

definition nfa_targets :: "nfa \<Rightarrow> int set" where
  "nfa_targets n = (\<Union>item \<in> set (nfa_transitions n). set (snd item))"

lemma nfa_get_targets: "set (nfa_get n s c) \<subseteq> nfa_targets n"
proof (cases "map_of (nfa_transitions n) (s, c)")
  case None
  then show ?thesis by (simp add: nfa_get_def)
next
  case (Some states)
  then have "((s, c), states) \<in> set (nfa_transitions n)" by (rule map_of_SomeD)
  then have "set states \<subseteq> nfa_targets n" by (force simp: nfa_targets_def)
  with Some show ?thesis by (simp add: nfa_get_def)
qed

lemma finite_nfa_targets: "finite (nfa_targets n)"
  by (simp add: nfa_targets_def)

subsection \<open>get_dfa\<close>

text \<open>
  \<open>next_states\<close>: the union of the targets of the members of \<open>states\<close> on \<open>symbol\<close>.
  The source builds it by \<open>update\<close> in a loop over \<open>states\<close>; no error can be raised.
\<close>

definition get_dfa_successor :: "nfa \<Rightarrow> int set \<Rightarrow> nat \<Rightarrow> error + int set" where
  "get_dfa_successor n states symbol =
     Inr (\<Union>state \<in> states. set (nfa_get n state (int symbol)))"

text \<open>
  The outputs of a set of states: the union of \<open>self.outputs.get(state, [])\<close> over its
  members, stored when it is not empty.
\<close>

definition get_dfa_emit :: "nfa \<Rightarrow> int set \<Rightarrow> int \<Rightarrow> dfa \<Rightarrow> dfa" where
  "get_dfa_emit n states state d =
     (let outputs = (\<Union>s \<in> states. case nfa_outputs n s of None \<Rightarrow> {} | Some tags \<Rightarrow> tags)
      in if outputs \<noteq> {} then d\<lparr>dfa_outputs := (dfa_outputs d)(state \<mapsto> outputs)\<rparr> else d)"

definition get_dfa :: "nfa \<Rightarrow> (error + dfa) option" where
  "get_dfa n =
     explore (get_dfa_successor n) (get_dfa_emit n) {nfa_initial_state n}"

subsection \<open>epsilon_closure\<close>

text \<open>
  The loop of \<open>epsilon_closure\<close> on the set \<open>closure\<close> and the stack \<open>frontier\<close> (its
  head is the top). The targets of the popped state that are not in the closure are
  appended in the order of the set's members, so the last of them is the new top.
  The loop ends: either the closure grows inside the finite set of the states that
  occur, or the popped state was in the closure already and pushes nothing that is.
\<close>

function closure_loop :: "nfa \<Rightarrow> int set \<Rightarrow> int list \<Rightarrow> int set" where
  "closure_loop n closure [] = closure"
| "closure_loop n closure (state # frontier) =
     (case map_of (nfa_transitions n) (state, EPSILON) of
        None \<Rightarrow> closure_loop n (insert state closure) frontier
      | Some states \<Rightarrow>
          closure_loop n (insert state closure)
            (rev (filter (\<lambda>s. s \<notin> insert state closure) states) @ frontier))"
  by pat_completeness auto
termination
proof (relation "measures [\<lambda>(n, closure, frontier). card ((nfa_targets n \<union> set frontier) - closure),
                           \<lambda>(n, closure, frontier). length (filter (\<lambda>s. s \<in> closure) frontier)]")
  show "wf (measures [\<lambda>(n, closure, frontier). card ((nfa_targets n \<union> set frontier) - closure),
                           \<lambda>(n, closure, frontier). length (filter (\<lambda>s. s \<in> closure) frontier)])"
    by simp
next
  fix n :: nfa and closure :: "int set" and state :: int and frontier :: "int list"
  let ?T = "nfa_targets n"
  have fin: "finite ((?T \<union> set (state # frontier)) - closure)"
    by (simp add: finite_nfa_targets)
  show "((n, insert state closure, frontier), (n, closure, state # frontier))
        \<in> measures [\<lambda>(n, closure, frontier). card ((nfa_targets n \<union> set frontier) - closure),
                           \<lambda>(n, closure, frontier). length (filter (\<lambda>s. s \<in> closure) frontier)]"
  proof (cases "state \<in> closure")
    case True
    then have "insert state closure = closure" by auto
    moreover have "(?T \<union> set frontier) - closure \<subseteq> (?T \<union> set (state # frontier)) - closure"
      by auto
    then have "card ((?T \<union> set frontier) - closure) \<le> card ((?T \<union> set (state # frontier)) - closure)"
      using fin by (rule card_mono [rotated])
    ultimately show ?thesis using True by auto
  next
    case False
    then have "(?T \<union> set frontier) - insert state closure \<subset> (?T \<union> set (state # frontier)) - closure"
      by auto
    then have "card ((?T \<union> set frontier) - insert state closure) <
               card ((?T \<union> set (state # frontier)) - closure)"
      using fin by (rule psubset_card_mono [rotated])
    then show ?thesis by simp
  qed
next
  fix n :: nfa and closure :: "int set" and state :: int and frontier states :: "int list"
  assume m: "map_of (nfa_transitions n) (state, EPSILON) = Some states"
  let ?T = "nfa_targets n"
  let ?new = "rev (filter (\<lambda>s. s \<notin> insert state closure) states)"
  from m have "((state, EPSILON), states) \<in> set (nfa_transitions n)" by (rule map_of_SomeD)
  then have st: "set states \<subseteq> ?T" by (force simp: nfa_targets_def)
  have fin: "finite ((?T \<union> set (state # frontier)) - closure)"
    by (simp add: finite_nfa_targets)
  show "((n, insert state closure, ?new @ frontier), (n, closure, state # frontier))
        \<in> measures [\<lambda>(n, closure, frontier). card ((nfa_targets n \<union> set frontier) - closure),
                           \<lambda>(n, closure, frontier). length (filter (\<lambda>s. s \<in> closure) frontier)]"
  proof (cases "state \<in> closure")
    case True
    then have eq: "insert state closure = closure" by auto
    have "(?T \<union> set (?new @ frontier)) - closure \<subseteq> (?T \<union> set (state # frontier)) - closure"
      using st by auto
    then have "card ((?T \<union> set (?new @ frontier)) - closure) \<le>
               card ((?T \<union> set (state # frontier)) - closure)"
      using fin by (rule card_mono [rotated])
    moreover have "filter (\<lambda>s. s \<in> closure) ?new = []"
      by (auto simp: eq filter_empty_conv)
    ultimately show ?thesis using True by (auto simp: eq)
  next
    case False
    then have "(?T \<union> set (?new @ frontier)) - insert state closure \<subset>
               (?T \<union> set (state # frontier)) - closure"
      using st by auto
    then have "card ((?T \<union> set (?new @ frontier)) - insert state closure) <
               card ((?T \<union> set (state # frontier)) - closure)"
      using fin by (rule psubset_card_mono [rotated])
    then show ?thesis by simp
  qed
qed

definition epsilon_closure :: "nfa \<Rightarrow> int \<Rightarrow> int set" where
  "epsilon_closure n state = closure_loop n {} [state]"


subsection \<open>remove_epsilons\<close>

text \<open>
  The variables that the loops of \<open>remove_epsilons\<close> change: the new automaton
  \<open>nfa\<close>, the dictionary \<open>state_ids\<close> and the stack \<open>frontier\<close>.
\<close>

record eraser =
  eraser_nfa :: nfa
  eraser_state_ids :: "int \<rightharpoonup> int"
  eraser_frontier :: "int list"

definition get_new_state :: "int \<Rightarrow> eraser \<Rightarrow> int \<times> eraser" where
  "get_new_state state e =
     (case eraser_state_ids e state of
        Some q \<Rightarrow> (q, e)
      | None \<Rightarrow>
          (let (q, m) = nfa_add_state (eraser_nfa e)
           in (q, e\<lparr>eraser_nfa := m, eraser_state_ids := (eraser_state_ids e)(state \<mapsto> q)\<rparr>)))"

text \<open>
  The bodies of the three nested \<open>for\<close> loops, innermost first: over the targets
  \<open>next_state\<close> of an item, over the items of \<open>self.transitions\<close>, and over the members
  \<open>intermediate_state\<close> of the closure. The order in which Python yields the members
  of the closure, a set, is not specified: it is the parameter \<open>iter\<close>.
\<close>

definition visit_target :: "int \<Rightarrow> int \<Rightarrow> int \<Rightarrow> eraser \<Rightarrow> eraser" where
  "visit_target new_state symbol next_state e =
     (let (new_next_state, e1) = get_new_state next_state e
      in e1\<lparr>eraser_nfa := add_transition new_state new_next_state symbol (eraser_nfa e1),
            eraser_frontier := next_state # eraser_frontier e1\<rparr>)"

definition visit_item :: "int \<Rightarrow> int \<Rightarrow> (int \<times> int) \<times> int list \<Rightarrow> eraser \<Rightarrow> eraser" where
  "visit_item new_state intermediate_state item e =
     (case item of ((s, symbol), states) \<Rightarrow>
        if s \<noteq> intermediate_state \<or> symbol = EPSILON then e
        else fold (visit_target new_state symbol) states e)"

definition visit_intermediate :: "nfa \<Rightarrow> int \<Rightarrow> int \<Rightarrow> eraser \<Rightarrow> eraser" where
  "visit_intermediate n new_state intermediate_state e =
     (let e1 = (case nfa_outputs n intermediate_state of
                  Some tags \<Rightarrow>
                    e\<lparr>eraser_nfa := (eraser_nfa e)\<lparr>nfa_outputs :=
                         (nfa_outputs (eraser_nfa e))(new_state \<mapsto> tags)\<rparr>\<rparr>
                | None \<Rightarrow> e)
      in fold (visit_item new_state intermediate_state) (nfa_transitions n) e1)"

definition visit_state :: "(int set \<Rightarrow> int list) \<Rightarrow> nfa \<Rightarrow> int \<Rightarrow> eraser \<Rightarrow> eraser" where
  "visit_state iter n state e =
     (let (new_state, e1) = get_new_state state e
      in fold (visit_intermediate n new_state) (iter (epsilon_closure n state)) e1)"

text \<open>The \<open>while len(frontier) > 0\<close> loop; \<open>explored\<close> is only read and extended here.\<close>

function remove_loop :: "(int set \<Rightarrow> int list) \<Rightarrow> nfa \<Rightarrow> int set \<Rightarrow> eraser \<Rightarrow> eraser" where
  "remove_loop iter n explored e =
     (case eraser_frontier e of
        [] \<Rightarrow> e
      | state # frontier \<Rightarrow>
          if state \<in> explored then remove_loop iter n explored (e\<lparr>eraser_frontier := frontier\<rparr>)
          else remove_loop iter n (insert state explored)
                 (visit_state iter n state (e\<lparr>eraser_frontier := frontier\<rparr>)))"
  by pat_completeness auto

definition remove_epsilons :: "(int set \<Rightarrow> int list) \<Rightarrow> nfa \<Rightarrow> nfa" where
  "remove_epsilons iter n =
     (let (q0, e0) = get_new_state (nfa_initial_state n)
                       \<lparr>eraser_nfa = NFA, eraser_state_ids = Map.empty, eraser_frontier = []\<rparr>;
          e1 = e0\<lparr>eraser_nfa := (eraser_nfa e0)\<lparr>nfa_initial_state := q0\<rparr>,
                  eraser_frontier := [nfa_initial_state n]\<rparr>
      in eraser_nfa (remove_loop iter n {} e1))"

text \<open>
  What a turn of the loop pushes is a target of the dictionary, so the loop ends:
  \<open>explored\<close> grows inside a finite set, or the frontier shrinks.
\<close>

lemma get_new_state_frontier:
  "get_new_state state e = (q, e1) \<Longrightarrow> eraser_frontier e1 = eraser_frontier e"
  by (auto simp: get_new_state_def nfa_add_state_def split: option.splits)

lemma visit_target_frontier:
  "eraser_frontier (visit_target new_state symbol next_state e) = next_state # eraser_frontier e"
proof -
  obtain q e1 where g: "get_new_state next_state e = (q, e1)" by (cases "get_new_state next_state e")
  from get_new_state_frontier [OF g] g show ?thesis by (simp add: visit_target_def)
qed

lemma fold_visit_target_frontier:
  "set (eraser_frontier (fold (visit_target new_state symbol) states e)) =
     set states \<union> set (eraser_frontier e)"
  by (induction states arbitrary: e) (auto simp: visit_target_frontier)

lemma visit_item_frontier:
  assumes "item \<in> set (nfa_transitions n)"
  shows "set (eraser_frontier (visit_item new_state intermediate_state item e))
     \<subseteq> nfa_targets n \<union> set (eraser_frontier e)"
proof -
  obtain s symbol states where item: "item = ((s, symbol), states)" by (cases item) auto
  with assms have "set states \<subseteq> nfa_targets n" by (force simp: nfa_targets_def)
  with item show ?thesis by (auto simp: visit_item_def fold_visit_target_frontier)
qed

lemma fold_visit_item_frontier:
  "set items \<subseteq> set (nfa_transitions n) \<Longrightarrow>
   set (eraser_frontier (fold (visit_item new_state intermediate_state) items e))
     \<subseteq> nfa_targets n \<union> set (eraser_frontier e)"
proof (induction items arbitrary: e)
  case Nil
  then show ?case by simp
next
  case (Cons item items)
  from Cons.prems have "item \<in> set (nfa_transitions n)" "set items \<subseteq> set (nfa_transitions n)"
    by simp_all
  from visit_item_frontier [OF this(1)] Cons.IH [OF this(2)] show ?case by fastforce
qed

lemma visit_intermediate_frontier:
  "set (eraser_frontier (visit_intermediate n new_state intermediate_state e))
     \<subseteq> nfa_targets n \<union> set (eraser_frontier e)"
proof (cases "nfa_outputs n intermediate_state")
  case None
  with fold_visit_item_frontier [of "nfa_transitions n" n new_state intermediate_state e]
  show ?thesis by (simp add: visit_intermediate_def)
next
  case (Some tags)
  with fold_visit_item_frontier [of "nfa_transitions n" n new_state intermediate_state
      "e\<lparr>eraser_nfa := (eraser_nfa e)\<lparr>nfa_outputs := (nfa_outputs (eraser_nfa e))(new_state \<mapsto> tags)\<rparr>\<rparr>"]
  show ?thesis by (simp add: visit_intermediate_def)
qed

lemma fold_visit_intermediate_frontier:
  "set (eraser_frontier (fold (visit_intermediate n new_state) states e))
     \<subseteq> nfa_targets n \<union> set (eraser_frontier e)"
proof (induction states arbitrary: e)
  case Nil
  then show ?case by simp
next
  case (Cons s states)
  from visit_intermediate_frontier [of n new_state s e] Cons.IH show ?case by fastforce
qed

lemma visit_state_frontier:
  "set (eraser_frontier (visit_state iter n state e)) \<subseteq> nfa_targets n \<union> set (eraser_frontier e)"
proof -
  obtain q e1 where g: "get_new_state state e = (q, e1)" by (cases "get_new_state state e")
  from fold_visit_intermediate_frontier [of n q "iter (epsilon_closure n state)" e1]
    get_new_state_frontier [OF g] g
  show ?thesis by (simp add: visit_state_def)
qed

termination remove_loop
proof (relation "measures [\<lambda>(iter, n, explored, e). card ((nfa_targets n \<union> set (eraser_frontier e)) - explored),
                           \<lambda>(iter, n, explored, e). length (eraser_frontier e)]")
  show "wf (measures [\<lambda>(iter, n, explored, e). card ((nfa_targets n \<union> set (eraser_frontier e)) - explored),
                           \<lambda>(iter, n, explored, e). length (eraser_frontier e)])" by simp
next
  fix iter :: "int set \<Rightarrow> int list" and n :: nfa and explored :: "int set" and e :: eraser
    and state :: int and frontier :: "int list"
  assume fr: "eraser_frontier e = state # frontier" and ex: "state \<in> explored"
  let ?T = "nfa_targets n"
  have "(?T \<union> set frontier) - explored \<subseteq> (?T \<union> set (state # frontier)) - explored" by auto
  moreover have "finite ((?T \<union> set (state # frontier)) - explored)" by (simp add: finite_nfa_targets)
  ultimately have "card ((?T \<union> set frontier) - explored) \<le> card ((?T \<union> set (state # frontier)) - explored)"
    by (rule card_mono [rotated])
  with fr show "((iter, n, explored, e\<lparr>eraser_frontier := frontier\<rparr>), (iter, n, explored, e))
      \<in> measures [\<lambda>(iter, n, explored, e). card ((nfa_targets n \<union> set (eraser_frontier e)) - explored),
                           \<lambda>(iter, n, explored, e). length (eraser_frontier e)]" by auto
next
  fix iter :: "int set \<Rightarrow> int list" and n :: nfa and explored :: "int set" and e :: eraser
    and state :: int and frontier :: "int list"
  assume fr: "eraser_frontier e = state # frontier" and ex: "state \<notin> explored"
  let ?T = "nfa_targets n"
  let ?e' = "visit_state iter n state (e\<lparr>eraser_frontier := frontier\<rparr>)"
  from visit_state_frontier [of iter n state "e\<lparr>eraser_frontier := frontier\<rparr>"]
  have "set (eraser_frontier ?e') \<subseteq> ?T \<union> set frontier" by simp
  with ex have "(?T \<union> set (eraser_frontier ?e')) - insert state explored \<subset>
                (?T \<union> set (state # frontier)) - explored" by auto
  moreover have "finite ((?T \<union> set (state # frontier)) - explored)" by (simp add: finite_nfa_targets)
  ultimately have "card ((?T \<union> set (eraser_frontier ?e')) - insert state explored) <
                   card ((?T \<union> set (state # frontier)) - explored)"
    by (rule psubset_card_mono [rotated])
  with fr show "((iter, n, insert state explored, ?e'), (iter, n, explored, e))
      \<in> measures [\<lambda>(iter, n, explored, e). card ((nfa_targets n \<union> set (eraser_frontier e)) - explored),
                           \<lambda>(iter, n, explored, e). length (eraser_frontier e)]" by simp
qed

declare remove_loop.simps [simp del]

lemma remove_loop_Nil: "eraser_frontier e = [] \<Longrightarrow> remove_loop iter n explored e = e"
  by (subst remove_loop.simps) simp

lemma remove_loop_Cons:
  "eraser_frontier e = state # frontier \<Longrightarrow>
   remove_loop iter n explored e =
     (if state \<in> explored then remove_loop iter n explored (e\<lparr>eraser_frontier := frontier\<rparr>)
      else remove_loop iter n (insert state explored)
             (visit_state iter n state (e\<lparr>eraser_frontier := frontier\<rparr>)))"
  by (subst remove_loop.simps) simp

section \<open>Claims about the two lexers\<close>

text \<open>
  C8 (the code at the failing input). The table has no transition, the initial state 0
  is accepting with output 5, and the source is the one byte \<open>a\<close>. The only position
  at which the automaton is in an accepting state is the start, before any byte is
  consumed, so longest match would return the empty lexeme; \<open>get_next_token\<close> returns
  the lexeme \<open>a\<close> and moves the position to 1.
\<close>

theorem C8_initial_accepting_consumes_a_byte:
  "get_next_token
     \<lparr>lexer_transitions = Map.empty, lexer_initial_state = 0,
      lexer_outputs = [0 \<mapsto> 5], lexer_source = ''a'', lexer_position = 0\<rparr>
   = Inr ((5, Some ''a''),
          \<lparr>lexer_transitions = Map.empty, lexer_initial_state = 0,
           lexer_outputs = [0 \<mapsto> 5], lexer_source = ''a'', lexer_position = 1\<rparr>)"
  by (simp add: get_next_token_def)

text \<open>
  C9 (the code at the failing input). The source is a single backslash, an escape cut
  off by the end of the input: \<open>state0\<close> moves to \<open>state1\<close>, and the next \<open>consume\<close>
  reads past the end of the source, which raises \<open>IndexError\<close>, not \<open>LexerError\<close>.
\<close>

theorem C9_trailing_backslash_raises_IndexError:
  "lex \<lparr>regex_source = [backslash], regex_position = 0\<rparr> = Inl IndexError"
  by (simp add: lex_def)

section \<open>Proof rules for loops\<close>

text \<open>
  An invariant of the body holds when the loop is left; a body that decreases a
  well-founded relation under an invariant leaves the loop.
\<close>

lemma run_loop_rule:
  assumes run: "run_loop guard body s = Some r"
    and init: "P s"
    and step: "\<And>s s'. P s \<Longrightarrow> guard s \<Longrightarrow> body s = Running s' \<Longrightarrow> P s'"
  shows "case r of
           Running s' \<Rightarrow> P s' \<and> \<not> guard s'
         | Returned x \<Rightarrow> (\<exists>s. P s \<and> guard s \<and> body s = Returned x)
         | Raised e \<Rightarrow> (\<exists>s. P s \<and> guard s \<and> body s = Raised e)"
proof -
  let ?b = "\<lambda>st. case st of Running s \<Rightarrow> guard s | _ \<Rightarrow> False"
  let ?c = "\<lambda>st. case st of Running s \<Rightarrow> body s | _ \<Rightarrow> st"
  let ?Q = "\<lambda>st. case st of
           Running s' \<Rightarrow> P s'
         | Returned x \<Rightarrow> (\<exists>s. P s \<and> guard s \<and> body s = Returned x)
         | Raised e \<Rightarrow> (\<exists>s. P s \<and> guard s \<and> body s = Raised e)"
  from run have w: "while_option ?b ?c (Running s) = Some r"
    by (simp add: run_loop_def)
  have "?Q r"
  proof (rule while_option_rule [where P = ?Q, OF _ w])
    fix st assume "?Q st" "?b st"
    then show "?Q (?c st)"
      by (cases st; cases "body (case st of Running s \<Rightarrow> s)") (auto intro: step)
  next
    show "?Q (Running s)" using init by simp
  qed
  moreover have "\<not> ?b r" using while_option_stop [OF w] .
  ultimately show ?thesis by (cases r) auto
qed

lemma run_loop_terminates:
  assumes wf: "wf R"
    and init: "P s"
    and step: "\<And>s s'. P s \<Longrightarrow> guard s \<Longrightarrow> body s = Running s' \<Longrightarrow> P s' \<and> (s', s) \<in> R"
  shows "\<exists>r. run_loop guard body s = Some r"
proof -
  let ?b = "\<lambda>st. case st of Running s \<Rightarrow> guard s | _ \<Rightarrow> False"
  let ?c = "\<lambda>st. case st of Running s \<Rightarrow> body s | _ \<Rightarrow> st"
  let ?Q = "\<lambda>st. case st of Running s' \<Rightarrow> P s' | _ \<Rightarrow> True"
  let ?A = "map_prod Running Running ` R :: (('a, 'b) loop \<times> ('a, 'b) loop) set"
  let ?B = "{(t, st). (\<forall>s. t \<noteq> Running s) \<and> (\<exists>s. st = Running s)} :: (('a, 'b) loop \<times> ('a, 'b) loop) set"
  have wfA: "wf ?A" by (rule wf_map_prod_image [OF wf]) (auto simp: inj_on_def)
  have wfB: "wf ?B"
  proof (rule wfI_min)
    fix x :: "('a, 'b) loop" and Q assume "x \<in> Q"
    show "\<exists>z\<in>Q. \<forall>y. (y, z) \<in> ?B \<longrightarrow> y \<notin> Q"
    proof (cases "\<exists>y\<in>Q. \<forall>s. y \<noteq> Running s")
      case True
      then show ?thesis by auto
    next
      case False
      with \<open>x \<in> Q\<close> show ?thesis by auto
    qed
  qed
  have "Domain ?B \<inter> Range ?A = {}" by auto
  with wfB wfA have "wf (?B \<union> ?A)" by (rule wf_Un)
  moreover have "{(t, st). (?Q st \<and> ?b st) \<and> t = ?c st} \<subseteq> ?B \<union> ?A"
  proof (rule subsetI)
    fix x assume x: "x \<in> {(t, st). (?Q st \<and> ?b st) \<and> t = ?c st}"
    then obtain st where xeq: "x = (?c st, st)" and Q: "?Q st" and b: "?b st" by auto
    from b obtain s0 where st: "st = Running s0" and g: "guard s0" by (cases st) auto
    from Q st have p: "P s0" by simp
    show "x \<in> ?B \<union> ?A"
    proof (cases "body s0")
      case (Running s')
      with step [OF p g] have "(s', s0) \<in> R" by simp
      then have "(Running s', Running s0) \<in> ?A" by (force simp: image_iff)
      with xeq st Running show ?thesis by simp
    next
      case (Returned r)
      with xeq st show ?thesis by simp
    next
      case (Raised e)
      with xeq st show ?thesis by simp
    qed
  qed
  ultimately have wfr: "wf {(t, st). (?Q st \<and> ?b st) \<and> t = ?c st}" by (rule wf_subset)
  have "\<exists>t. while_option ?b ?c (Running s) = Some t"
  proof (rule wf_while_option_Some [where P = ?Q, OF wfr])
    fix st :: "('a, 'b) loop" assume "?Q st" "?b st"
    then show "?Q (?c st)"
      by (cases st; cases "body (case st of Running s \<Rightarrow> s)") (auto dest: step)
  next
    show "?Q (Running s)" using init by simp
  qed
  then show ?thesis by (simp add: run_loop_def)
qed

section \<open>The work-list loop builds a simulation\<close>

text \<open>
  The invariant of the loop of \<open>union\<close> and \<open>get_dfa\<close>. \<open>state_map\<close> is a bijection
  between the keys seen so far and the states of the new automaton; a key that has
  left the frontier has its whole row linked to the states of its successors and its
  outputs stored; a key still on the frontier has no outputs yet. \<open>cur\<close> is the key
  being worked on and the number of symbols already linked for it.
\<close>

definition emitted :: "('k \<Rightarrow> int set) \<Rightarrow> 'k \<Rightarrow> int set option" where
  "emitted out k = (if out k = {} then None else Some (out k))"

definition emit_spec :: "('k \<Rightarrow> int \<Rightarrow> dfa \<Rightarrow> dfa) \<Rightarrow> ('k \<Rightarrow> int set) \<Rightarrow> bool" where
  "emit_spec emit out =
     (\<forall>k s d. dfa_transitions (emit k s d) = dfa_transitions d \<and>
              dfa_initial_state (emit k s d) = dfa_initial_state d \<and>
              (\<forall>s'. s' \<noteq> s \<longrightarrow> dfa_outputs (emit k s d) s' = dfa_outputs d s') \<and>
              (dfa_outputs d s = None \<longrightarrow> dfa_outputs (emit k s d) s = emitted out k))"

definition linked :: "('k \<Rightarrow> nat \<Rightarrow> error + 'k) \<Rightarrow> 'k builder \<Rightarrow> 'k \<Rightarrow> nat \<Rightarrow> bool" where
  "linked successor b k i =
     (\<forall>s. builder_state_map b k = Some s \<longrightarrow>
        (\<forall>c<i. \<exists>k'. successor k c = Inr k' \<and>
                  builder_state_map b k' = Some (dfa_transitions (builder_dfa b) ! nat s ! c)))"

definition builder_wf :: "'k builder \<Rightarrow> bool" where
  "builder_wf b =
     (inj_on (builder_state_map b) (dom (builder_state_map b)) \<and>
      ran (builder_state_map b) = {s. 0 \<le> s \<and> s < int (length (dfa_transitions (builder_dfa b)))} \<and>
      (\<forall>row \<in> set (dfa_transitions (builder_dfa b)). length row = NUM_CHARS) \<and>
      set (builder_frontier b) \<subseteq> dom (builder_state_map b) \<and> distinct (builder_frontier b) \<and>
      dom (dfa_outputs (builder_dfa b)) \<subseteq> {s. 0 \<le> s \<and> s < int (length (dfa_transitions (builder_dfa b)))})"

definition pending :: "'k builder \<Rightarrow> ('k \<times> nat) option \<Rightarrow> 'k set" where
  "pending b cur = set (builder_frontier b) \<union> (case cur of None \<Rightarrow> {} | Some (k, i) \<Rightarrow> {k})"

definition explore_inv ::
  "('k \<Rightarrow> nat \<Rightarrow> error + 'k) \<Rightarrow> ('k \<Rightarrow> int set) \<Rightarrow> 'k \<Rightarrow> ('k \<times> nat) option \<Rightarrow> 'k builder \<Rightarrow> bool" where
  "explore_inv successor out key0 cur b =
     (builder_wf b \<and> builder_state_map b key0 = Some 0 \<and> dfa_initial_state (builder_dfa b) = 0 \<and>
      (\<forall>k s. builder_state_map b k = Some s \<longrightarrow> k \<notin> pending b cur \<longrightarrow>
          linked successor b k NUM_CHARS \<and> dfa_outputs (builder_dfa b) s = emitted out k) \<and>
      (\<forall>k s. builder_state_map b k = Some s \<longrightarrow> k \<in> pending b cur \<longrightarrow>
          dfa_outputs (builder_dfa b) s = None) \<and>
      (case cur of None \<Rightarrow> True
       | Some (key, i) \<Rightarrow> key \<in> dom (builder_state_map b) \<and> key \<notin> set (builder_frontier b) \<and>
                          linked successor b key i))"

lemma builder_wf_state_range:
  "builder_wf b \<Longrightarrow> builder_state_map b k = Some s \<Longrightarrow>
   0 \<le> s \<and> s < int (length (dfa_transitions (builder_dfa b)))"
  unfolding builder_wf_def by (auto simp: ran_def)

lemma builder_wf_inj:
  "builder_wf b \<Longrightarrow> builder_state_map b k = Some s \<Longrightarrow> builder_state_map b k' = Some s \<Longrightarrow> k = k'"
  unfolding builder_wf_def inj_on_def by (metis domI)

lemma intern_old:
  "next_key \<in> dom (builder_state_map b) \<Longrightarrow> intern next_key b = b"
  by (simp add: intern_def)

lemma intern_new:
  "next_key \<notin> dom (builder_state_map b) \<Longrightarrow>
   intern next_key b =
     \<lparr>builder_frontier = next_key # builder_frontier b,
      builder_state_map = (builder_state_map b)(next_key \<mapsto> int (length (dfa_transitions (builder_dfa b)))),
      builder_dfa = (builder_dfa b)\<lparr>dfa_transitions := dfa_transitions (builder_dfa b) @ [replicate NUM_CHARS (-1)]\<rparr>\<rparr>"
  by (simp add: intern_def add_state_def)

lemma intern_dom: "next_key \<in> dom (builder_state_map (intern next_key b))"
  by (cases "next_key \<in> dom (builder_state_map b)") (simp_all add: intern_old intern_new)

lemma intern_wf:
  assumes "builder_wf b"
  shows "builder_wf (intern next_key b)"
proof (cases "next_key \<in> dom (builder_state_map b)")
  case True
  with assms show ?thesis by (simp add: intern_old)
next
  case False
  let ?n = "int (length (dfa_transitions (builder_dfa b)))"
  from False have none: "builder_state_map b next_key = None" by auto
  from assms have ran: "ran (builder_state_map b) = {s. 0 \<le> s \<and> s < ?n}"
    by (simp add: builder_wf_def)
  have inj: "inj_on ((builder_state_map b)(next_key \<mapsto> ?n)) (insert next_key (dom (builder_state_map b)))"
  proof (rule inj_onI)
    fix x y
    assume x: "x \<in> insert next_key (dom (builder_state_map b))"
      and y: "y \<in> insert next_key (dom (builder_state_map b))"
      and eq: "((builder_state_map b)(next_key \<mapsto> ?n)) x = ((builder_state_map b)(next_key \<mapsto> ?n)) y"
    have nn: "\<And>k. k \<in> dom (builder_state_map b) \<Longrightarrow> builder_state_map b k \<noteq> Some ?n"
      using ran by (auto simp: ran_def)
    from assms have "inj_on (builder_state_map b) (dom (builder_state_map b))" by (simp add: builder_wf_def)
    with x y eq nn show "x = y"
      by (auto simp: inj_on_def split: if_splits)
  qed
  have "ran ((builder_state_map b)(next_key \<mapsto> ?n)) = insert ?n (ran (builder_state_map b))"
    using none by (rule ran_map_upd)
  also have "\<dots> = insert ?n {s. 0 \<le> s \<and> s < ?n}" by (simp only: ran)
  also have "\<dots> = {s. 0 \<le> s \<and> s < ?n + 1}" by auto
  finally have ran': "ran ((builder_state_map b)(next_key \<mapsto> ?n)) = {s. 0 \<le> s \<and> s < ?n + 1}" .
  from assms False inj ran' show ?thesis
    by (auto simp: intern_new builder_wf_def)
qed


lemma intern_state_map_mono:
  "builder_state_map b k = Some s \<Longrightarrow> builder_state_map (intern next_key b) k = Some s"
  by (cases "next_key \<in> dom (builder_state_map b)") (auto simp: intern_old intern_new)

lemma intern_state_map_cases:
  assumes "builder_state_map (intern next_key b) k = Some s"
  shows "builder_state_map b k = Some s \<or>
         (k = next_key \<and> next_key \<notin> dom (builder_state_map b) \<and>
          s = int (length (dfa_transitions (builder_dfa b))))"
  using assms
  by (cases "next_key \<in> dom (builder_state_map b)") (auto simp: intern_old intern_new split: if_splits)

lemma intern_row:
  "i < length (dfa_transitions (builder_dfa b)) \<Longrightarrow>
   dfa_transitions (builder_dfa (intern next_key b)) ! i = dfa_transitions (builder_dfa b) ! i"
  by (cases "next_key \<in> dom (builder_state_map b)") (simp_all add: intern_old intern_new nth_append)

lemma intern_outputs:
  "dfa_outputs (builder_dfa (intern next_key b)) = dfa_outputs (builder_dfa b)"
  by (cases "next_key \<in> dom (builder_state_map b)") (simp_all add: intern_old intern_new)

lemma intern_initial:
  "dfa_initial_state (builder_dfa (intern next_key b)) = dfa_initial_state (builder_dfa b)"
  by (cases "next_key \<in> dom (builder_state_map b)") (simp_all add: intern_old intern_new)

lemma intern_frontier:
  "set (builder_frontier (intern next_key b)) =
     (if next_key \<in> dom (builder_state_map b) then set (builder_frontier b)
      else insert next_key (set (builder_frontier b)))"
  by (simp add: intern_old intern_new)

lemma linked_intern:
  assumes wf: "builder_wf b" and k: "k \<in> dom (builder_state_map b)" and l: "linked successor b k i"
  shows "linked successor (intern next_key b) k i"
  unfolding linked_def
proof (intro allI impI)
  fix s c
  assume s': "builder_state_map (intern next_key b) k = Some s" and c: "c < i"
  from k obtain s0 where s0: "builder_state_map b k = Some s0" by auto
  then have "builder_state_map (intern next_key b) k = Some s0" by (rule intern_state_map_mono)
  with s' have s: "builder_state_map b k = Some s" using s0 by simp
  from builder_wf_state_range [OF wf s]
  have lt: "nat s < length (dfa_transitions (builder_dfa b))" by auto
  from l s c obtain k' where k': "successor k c = Inr k'"
    and m: "builder_state_map b k' = Some (dfa_transitions (builder_dfa b) ! nat s ! c)"
    unfolding linked_def by blast
  from m have "builder_state_map (intern next_key b) k' = Some (dfa_transitions (builder_dfa b) ! nat s ! c)"
    by (rule intern_state_map_mono)
  with k' lt show "\<exists>k'. successor k c = Inr k' \<and>
      builder_state_map (intern next_key b) k' =
        Some (dfa_transitions (builder_dfa (intern next_key b)) ! nat s ! c)"
    by (simp add: intern_row)
qed

lemma intern_inv:
  assumes inv: "explore_inv successor out key0 cur b"
  shows "explore_inv successor out key0 cur (intern next_key b)"
proof -
  from inv have wf: "builder_wf b" by (simp add: explore_inv_def)
  have pend: "pending (intern next_key b) cur =
      (if next_key \<in> dom (builder_state_map b) then pending b cur else insert next_key (pending b cur))"
    by (simp add: pending_def intern_frontier)
  have fr_dom: "set (builder_frontier b) \<subseteq> dom (builder_state_map b)" using wf by (simp add: builder_wf_def)
  have out_dom: "dom (dfa_outputs (builder_dfa b)) \<subseteq>
      {s. 0 \<le> s \<and> s < int (length (dfa_transitions (builder_dfa b)))}"
    using wf by (simp add: builder_wf_def)
  have 1: "builder_wf (intern next_key b)" using wf by (rule intern_wf)
  have 2: "builder_state_map (intern next_key b) key0 = Some 0"
    using inv by (simp add: explore_inv_def intern_state_map_mono)
  have 3: "dfa_initial_state (builder_dfa (intern next_key b)) = 0"
    using inv by (simp add: explore_inv_def intern_initial)
  have 4: "linked successor (intern next_key b) k NUM_CHARS \<and>
           dfa_outputs (builder_dfa (intern next_key b)) s = emitted out k"
    if "builder_state_map (intern next_key b) k = Some s" "k \<notin> pending (intern next_key b) cur" for k s
  proof -
    from that pend have np: "k \<notin> pending b cur" and ne: "next_key \<notin> dom (builder_state_map b) \<Longrightarrow> k \<noteq> next_key"
      by (auto split: if_splits)
    from intern_state_map_cases [OF that(1)] ne have s: "builder_state_map b k = Some s" by auto
    with inv np have "linked successor b k NUM_CHARS" "dfa_outputs (builder_dfa b) s = emitted out k"
      by (auto simp: explore_inv_def)
    with wf s show ?thesis by (auto simp: intern_outputs intro: linked_intern)
  qed
  have 5: "dfa_outputs (builder_dfa (intern next_key b)) s = None"
    if "builder_state_map (intern next_key b) k = Some s" "k \<in> pending (intern next_key b) cur" for k s
  proof -
    from intern_state_map_cases [OF that(1)] show ?thesis
    proof
      assume s: "builder_state_map b k = Some s"
      then have "k \<in> dom (builder_state_map b)" by auto
      with that(2) pend have "k \<in> pending b cur" by (auto split: if_splits)
      with inv s show ?thesis by (auto simp: explore_inv_def intern_outputs)
    next
      assume "k = next_key \<and> next_key \<notin> dom (builder_state_map b) \<and>
          s = int (length (dfa_transitions (builder_dfa b)))"
      with out_dom show ?thesis by (auto simp: intern_outputs)
    qed
  qed
  have 6: "case cur of None \<Rightarrow> True
     | Some (key, i) \<Rightarrow> key \<in> dom (builder_state_map (intern next_key b)) \<and>
         key \<notin> set (builder_frontier (intern next_key b)) \<and> linked successor (intern next_key b) key i"
  proof (cases cur)
    case None
    then show ?thesis by simp
  next
    case (Some p)
    obtain key i where p: "p = (key, i)" by (cases p)
    from inv Some p have a: "key \<in> dom (builder_state_map b)" "key \<notin> set (builder_frontier b)"
      "linked successor b key i" by (auto simp: explore_inv_def)
    from a(1) have "key \<in> dom (builder_state_map (intern next_key b))"
      by (auto intro: intern_state_map_mono)
    moreover from a(1,2) have "key \<notin> set (builder_frontier (intern next_key b))"
      by (auto simp: intern_frontier)
    moreover from wf a(1,3) have "linked successor (intern next_key b) key i"
      by (rule linked_intern)
    ultimately show ?thesis using Some p by simp
  qed
  from 1 2 3 4 5 6 show ?thesis unfolding explore_inv_def by blast
qed


lemma link_eq:
  assumes wf: "builder_wf b" and s: "builder_state_map b key = Some s"
    and v: "builder_state_map b next_key = Some v" and i: "i < NUM_CHARS"
  shows "link key i next_key b =
     Inr (b\<lparr>builder_dfa := (builder_dfa b)\<lparr>dfa_transitions :=
            (dfa_transitions (builder_dfa b))[nat s := (dfa_transitions (builder_dfa b) ! nat s)[i := v]]\<rparr>\<rparr>)"
proof -
  from builder_wf_state_range [OF wf s]
  have r: "0 \<le> s" "s < int (length (dfa_transitions (builder_dfa b)))" by auto
  then have "dfa_transitions (builder_dfa b) ! nat s \<in> set (dfa_transitions (builder_dfa b))" by simp
  with wf have "length (dfa_transitions (builder_dfa b) ! nat s) = NUM_CHARS"
    by (simp add: builder_wf_def)
  with r i s v show ?thesis
    by (simp add: link_def dfa_set_transition_def Let_def)
qed

lemma link_inv:
  assumes inv: "explore_inv successor out key0 (Some (key, i)) b"
    and succ: "successor key i = Inr next_key"
    and nk: "next_key \<in> dom (builder_state_map b)"
    and i: "i < NUM_CHARS"
  shows "\<exists>b'. link key i next_key b = Inr b' \<and>
              explore_inv successor out key0 (Some (key, Suc i)) b' \<and>
              builder_state_map b' = builder_state_map b \<and> builder_frontier b' = builder_frontier b"
proof -
  from inv have wf: "builder_wf b" by (simp add: explore_inv_def)
  from inv obtain s where s: "builder_state_map b key = Some s" by (auto simp: explore_inv_def)
  from nk obtain v where v: "builder_state_map b next_key = Some v" by auto
  let ?ts = "dfa_transitions (builder_dfa b)"
  let ?row = "?ts ! nat s"
  let ?b' = "b\<lparr>builder_dfa := (builder_dfa b)\<lparr>dfa_transitions := ?ts[nat s := ?row[i := v]]\<rparr>\<rparr>"
  have eq: "link key i next_key b = Inr ?b'" using wf s v i by (rule link_eq)
  from builder_wf_state_range [OF wf s]
  have r: "0 \<le> s" "nat s < length ?ts" by auto
  from wf r have len: "length ?row = NUM_CHARS" by (simp add: builder_wf_def)
  have rows: "\<forall>row \<in> set (?ts[nat s := ?row[i := v]]). length row = NUM_CHARS"
  proof
    fix row assume "row \<in> set (?ts[nat s := ?row[i := v]])"
    then have "row = ?row[i := v] \<or> row \<in> set ?ts"
      using set_update_subset_insert [of ?ts "nat s" "?row[i := v]"] by auto
    with wf len show "length row = NUM_CHARS" by (auto simp: builder_wf_def)
  qed
  have 1: "builder_wf ?b'" using wf rows by (simp add: builder_wf_def)
  have other: "linked successor ?b' k j" if k: "builder_state_map b k = Some s2" "k \<noteq> key"
    and l: "linked successor b k j" for k s2 j
  proof -
    from builder_wf_inj [OF wf k(1)] s k(2) have "s2 \<noteq> s" by auto
    moreover from builder_wf_state_range [OF wf k(1)] have "0 \<le> s2" by simp
    ultimately have "nat s \<noteq> nat s2" using r by auto
    then have "?ts[nat s := ?row[i := v]] ! nat s2 = ?ts ! nat s2" by simp
    with l k(1) show ?thesis unfolding linked_def by simp
  qed
  have 4: "linked successor ?b' k NUM_CHARS \<and> dfa_outputs (builder_dfa ?b') s2 = emitted out k"
    if "builder_state_map ?b' k = Some s2" "k \<notin> pending ?b' (Some (key, Suc i))" for k s2
  proof -
    from that have k: "builder_state_map b k = Some s2" "k \<noteq> key" "k \<notin> pending b (Some (key, i))"
      by (auto simp: pending_def)
    with inv have "linked successor b k NUM_CHARS" "dfa_outputs (builder_dfa b) s2 = emitted out k"
      by (auto simp: explore_inv_def)
    with other [OF k(1,2)] show ?thesis by simp
  qed
  have 5: "dfa_outputs (builder_dfa ?b') s2 = None"
    if "builder_state_map ?b' k = Some s2" "k \<in> pending ?b' (Some (key, Suc i))" for k s2
  proof -
    from that have "builder_state_map b k = Some s2" "k \<in> pending b (Some (key, i))"
      by (auto simp: pending_def)
    with inv show ?thesis by (auto simp: explore_inv_def)
  qed
  from inv have li: "linked successor b key i" and kf: "key \<notin> set (builder_frontier b)"
    by (auto simp: explore_inv_def)
  have 6: "linked successor ?b' key (Suc i)"
    unfolding linked_def
  proof (intro allI impI)
    fix s' c assume s': "builder_state_map ?b' key = Some s'" and c: "c < Suc i"
    from s' s have [simp]: "s' = s" by simp
    show "\<exists>k'. successor key c = Inr k' \<and>
             builder_state_map ?b' k' = Some (dfa_transitions (builder_dfa ?b') ! nat s' ! c)"
    proof (cases "c = i")
      case True
      with succ v r len i show ?thesis by simp
    next
      case False
      with c have "c < i" by simp
      with li s obtain k' where "successor key c = Inr k'"
        "builder_state_map b k' = Some (?row ! c)" unfolding linked_def by blast
      with False r show ?thesis by simp
    qed
  qed
  have "explore_inv successor out key0 (Some (key, Suc i)) ?b'"
    unfolding explore_inv_def
    using 1 4 5 6 inv s kf by (auto simp: explore_inv_def)
  with eq show ?thesis by auto
qed


lemma symbols_loop_inv:
  assumes "explore_inv successor out key0 (Some (key, i)) b"
    and "i \<le> NUM_CHARS"
    and "symbols_loop successor key [i..<NUM_CHARS] b = Inr b'"
  shows "explore_inv successor out key0 (Some (key, NUM_CHARS)) b'"
  using assms
proof (induction "NUM_CHARS - i" arbitrary: i b)
  case 0
  then show ?case by simp
next
  case (Suc n)
  then have i: "i < NUM_CHARS" by simp
  then have upt: "[i..<NUM_CHARS] = i # [Suc i..<NUM_CHARS]" by (rule upt_conv_Cons)
  from Suc.prems(3) obtain next_key where nk: "successor key i = Inr next_key"
    by (cases "successor key i") (auto simp: upt)
  have inv1: "explore_inv successor out key0 (Some (key, i)) (intern next_key b)"
    using Suc.prems(1) by (rule intern_inv)
  from link_inv [OF inv1 nk intern_dom i] obtain b1 where
    b1: "link key i next_key (intern next_key b) = Inr b1"
    and inv2: "explore_inv successor out key0 (Some (key, Suc i)) b1" by blast
  from Suc.prems(3) nk b1 have "symbols_loop successor key [Suc i..<NUM_CHARS] b1 = Inr b'"
    by (simp add: upt)
  moreover from Suc.hyps(2) have "n = NUM_CHARS - Suc i" by simp
  moreover from i have "Suc i \<le> NUM_CHARS" by simp
  ultimately show ?case using Suc.hyps(1) inv2 by blast
qed

lemma symbols_loop_total:
  assumes "explore_inv successor out key0 (Some (key, i)) b"
    and "i \<le> NUM_CHARS"
    and "\<forall>c<NUM_CHARS. \<exists>k'. successor key c = Inr k'"
  shows "\<exists>b'. symbols_loop successor key [i..<NUM_CHARS] b = Inr b'"
  using assms
proof (induction "NUM_CHARS - i" arbitrary: i b)
  case 0
  then show ?case by simp
next
  case (Suc n)
  then have i: "i < NUM_CHARS" by simp
  then have upt: "[i..<NUM_CHARS] = i # [Suc i..<NUM_CHARS]" by (rule upt_conv_Cons)
  from Suc.prems(3) i obtain next_key where nk: "successor key i = Inr next_key" by blast
  have inv1: "explore_inv successor out key0 (Some (key, i)) (intern next_key b)"
    using Suc.prems(1) by (rule intern_inv)
  from link_inv [OF inv1 nk intern_dom i] obtain b1 where
    b1: "link key i next_key (intern next_key b) = Inr b1"
    and inv2: "explore_inv successor out key0 (Some (key, Suc i)) b1" by blast
  from Suc.hyps(2) have "n = NUM_CHARS - Suc i" by simp
  moreover from i have "Suc i \<le> NUM_CHARS" by simp
  ultimately have "\<exists>b'. symbols_loop successor key [Suc i..<NUM_CHARS] b1 = Inr b'"
    using Suc.hyps(1) inv2 Suc.prems(3) by blast
  with nk b1 show ?case by (simp add: upt)
qed

definition work :: "'k set \<Rightarrow> 'k builder \<Rightarrow> nat" where
  "work U b = 2 * card (U - dom (builder_state_map b)) + length (builder_frontier b)"

lemma intern_work:
  assumes "finite U" "dom (builder_state_map b) \<subseteq> U" "next_key \<in> U"
  shows "dom (builder_state_map (intern next_key b)) \<subseteq> U \<and> work U (intern next_key b) \<le> work U b"
proof (cases "next_key \<in> dom (builder_state_map b)")
  case True
  with assms show ?thesis by (simp add: intern_old)
next
  case False
  with assms have "next_key \<in> U - dom (builder_state_map b)" by simp
  moreover have "U - insert next_key (dom (builder_state_map b)) = (U - dom (builder_state_map b)) - {next_key}"
    by auto
  moreover have "finite (U - dom (builder_state_map b))" using assms(1) by simp
  ultimately have "card (U - insert next_key (dom (builder_state_map b))) < card (U - dom (builder_state_map b))"
    by (metis card_Diff1_less)
  with assms False show ?thesis by (simp add: intern_new work_def)
qed

lemma link_keeps:
  "link key i next_key b = Inr b' \<Longrightarrow> builder_state_map b' = builder_state_map b \<and> builder_frontier b' = builder_frontier b"
  by (auto simp: link_def split: option.splits sum.splits)

lemma symbols_loop_work:
  assumes "finite U" "dom (builder_state_map b) \<subseteq> U"
    and "\<forall>c \<in> set cs. \<forall>k'. successor key c = Inr k' \<longrightarrow> k' \<in> U"
    and "symbols_loop successor key cs b = Inr b'"
  shows "dom (builder_state_map b') \<subseteq> U \<and> work U b' \<le> work U b"
  using assms(2,3,4)
proof (induction cs arbitrary: b)
  case Nil
  then show ?case by simp
next
  case (Cons c cs)
  from Cons.prems(3) obtain next_key where nk: "successor key c = Inr next_key"
    by (cases "successor key c") auto
  with Cons.prems(3) obtain b1 where b1: "link key c next_key (intern next_key b) = Inr b1"
    and rest: "symbols_loop successor key cs b1 = Inr b'"
    by (cases "link key c next_key (intern next_key b)") auto
  from nk Cons.prems(2) have "next_key \<in> U" by simp
  from intern_work [OF assms(1) Cons.prems(1) this] link_keeps [OF b1]
  have "dom (builder_state_map b1) \<subseteq> U" "work U b1 \<le> work U b" by (simp_all add: work_def)
  moreover from Cons.prems(2)
  have "\<forall>c \<in> set cs. \<forall>k'. successor key c = Inr k' \<longrightarrow> k' \<in> U" by simp
  ultimately show ?case using Cons.IH [OF _ _ rest] by fastforce
qed

lemma pop_inv:
  assumes inv: "explore_inv successor out key0 None b" and fr: "builder_frontier b = key # rest"
  shows "explore_inv successor out key0 (Some (key, 0)) (b\<lparr>builder_frontier := rest\<rparr>)"
proof -
  from inv fr have wf: "builder_wf b" and d: "key \<notin> set rest" and kd: "key \<in> dom (builder_state_map b)"
    by (auto simp: explore_inv_def builder_wf_def)
  have p: "pending (b\<lparr>builder_frontier := rest\<rparr>) (Some (key, 0)) = pending b None"
    using fr by (auto simp: pending_def)
  have l: "\<And>k j. linked successor (b\<lparr>builder_frontier := rest\<rparr>) k j = linked successor b k j"
    by (simp add: linked_def)
  have "builder_wf (b\<lparr>builder_frontier := rest\<rparr>)" using wf fr by (auto simp: builder_wf_def)
  moreover have "linked successor (b\<lparr>builder_frontier := rest\<rparr>) key 0" by (simp add: linked_def)
  ultimately show ?thesis
    using inv d kd unfolding explore_inv_def p l by simp
qed

lemma emit_inv:
  assumes inv: "explore_inv successor out key0 (Some (key, NUM_CHARS)) b"
    and s: "builder_state_map b key = Some s"
    and spec: "emit_spec emit out"
  shows "explore_inv successor out key0 None (b\<lparr>builder_dfa := emit key s (builder_dfa b)\<rparr>)"
proof -
  let ?b' = "b\<lparr>builder_dfa := emit key s (builder_dfa b)\<rparr>"
  from inv have wf: "builder_wf b" by (simp add: explore_inv_def)
  from spec have tr: "dfa_transitions (emit key s (builder_dfa b)) = dfa_transitions (builder_dfa b)"
    and ini: "dfa_initial_state (emit key s (builder_dfa b)) = dfa_initial_state (builder_dfa b)"
    and oth: "\<And>s'. s' \<noteq> s \<Longrightarrow> dfa_outputs (emit key s (builder_dfa b)) s' = dfa_outputs (builder_dfa b) s'"
    and at: "dfa_outputs (builder_dfa b) s = None \<Longrightarrow> dfa_outputs (emit key s (builder_dfa b)) s = emitted out key"
    by (auto simp: emit_spec_def)
  from inv s have none: "dfa_outputs (builder_dfa b) s = None"
    by (auto simp: explore_inv_def pending_def)
  have l: "\<And>k j. linked successor ?b' k j = linked successor b k j"
    by (simp add: linked_def tr)
  have p: "pending b (Some (key, NUM_CHARS)) = insert key (pending ?b' None)"
    by (auto simp: pending_def)
  from builder_wf_state_range [OF wf s] have r: "0 \<le> s" "s < int (length (dfa_transitions (builder_dfa b)))"
    by auto
  have "dom (dfa_outputs (emit key s (builder_dfa b))) \<subseteq> insert s (dom (dfa_outputs (builder_dfa b)))"
    using oth by (auto simp: dom_def)
  moreover from wf have "dom (dfa_outputs (builder_dfa b)) \<subseteq>
      {s. 0 \<le> s \<and> s < int (length (dfa_transitions (builder_dfa b)))}" by (simp add: builder_wf_def)
  ultimately have "dom (dfa_outputs (emit key s (builder_dfa b))) \<subseteq>
      {s. 0 \<le> s \<and> s < int (length (dfa_transitions (builder_dfa b)))}" using r by blast
  with wf have 1: "builder_wf ?b'" by (simp add: builder_wf_def tr)
  have 4: "linked successor ?b' k NUM_CHARS \<and> dfa_outputs (builder_dfa ?b') s2 = emitted out k"
    if "builder_state_map ?b' k = Some s2" "k \<notin> pending ?b' None" for k s2
  proof (cases "k = key")
    case True
    with that s have "s2 = s" by simp
    with True inv at [OF none] show ?thesis by (simp add: l explore_inv_def)
  next
    case False
    with that have k: "builder_state_map b k = Some s2" "k \<notin> pending b (Some (key, NUM_CHARS))"
      by (auto simp: p)
    from builder_wf_inj [OF wf k(1)] s False have "s2 \<noteq> s" by auto
    with inv k show ?thesis by (simp add: l explore_inv_def oth)
  qed
  have 5: "dfa_outputs (builder_dfa ?b') s2 = None"
    if "builder_state_map ?b' k = Some s2" "k \<in> pending ?b' None" for k s2
  proof -
    from that have k: "builder_state_map b k = Some s2" "k \<in> pending b (Some (key, NUM_CHARS))"
      by (auto simp: p)
    from that inv have "k \<noteq> key" by (auto simp: pending_def explore_inv_def)
    with builder_wf_inj [OF wf k(1)] s have "s2 \<noteq> s" by auto
    with inv k show ?thesis by (simp add: explore_inv_def oth)
  qed
  from 1 4 5 inv show ?thesis unfolding explore_inv_def by (simp add: ini)
qed

lemma explore_body_inv:
  assumes inv: "explore_inv successor out key0 None b"
    and spec: "emit_spec emit out"
    and run: "explore_body successor emit b = Running b'"
  shows "explore_inv successor out key0 None b'"
proof -
  from run obtain key rest where fr: "builder_frontier b = key # rest"
    by (cases "builder_frontier b") (auto simp: explore_body_def)
  from run fr obtain b1 where b1: "symbols_loop successor key [0..<NUM_CHARS] (b\<lparr>builder_frontier := rest\<rparr>) = Inr b1"
    by (cases "symbols_loop successor key [0..<NUM_CHARS] (b\<lparr>builder_frontier := rest\<rparr>)")
       (auto simp: explore_body_def)
  from run fr b1 obtain s where s: "builder_state_map b1 key = Some s"
    and b': "b' = b1\<lparr>builder_dfa := emit key s (builder_dfa b1)\<rparr>"
    by (cases "builder_state_map b1 key") (auto simp: explore_body_def)
  from pop_inv [OF inv fr] b1
  have "explore_inv successor out key0 (Some (key, NUM_CHARS)) b1"
    by (rule symbols_loop_inv [OF _ le0])
  from emit_inv [OF this s spec] b' show ?thesis by simp
qed

lemma explore_body_work:
  assumes fin: "finite U" and dom: "dom (builder_state_map b) \<subseteq> U"
    and fd: "set (builder_frontier b) \<subseteq> dom (builder_state_map b)"
    and closed: "\<forall>k \<in> U. \<forall>c<NUM_CHARS. \<forall>k'. successor k c = Inr k' \<longrightarrow> k' \<in> U"
    and run: "explore_body successor emit b = Running b'"
  shows "dom (builder_state_map b') \<subseteq> U \<and> work U b' < work U b"
proof -
  from run obtain key rest where fr: "builder_frontier b = key # rest"
    by (cases "builder_frontier b") (auto simp: explore_body_def)
  from run fr obtain b1 where b1: "symbols_loop successor key [0..<NUM_CHARS] (b\<lparr>builder_frontier := rest\<rparr>) = Inr b1"
    by (cases "symbols_loop successor key [0..<NUM_CHARS] (b\<lparr>builder_frontier := rest\<rparr>)")
       (auto simp: explore_body_def)
  from run fr b1 obtain s where s: "builder_state_map b1 key = Some s"
    and b': "b' = b1\<lparr>builder_dfa := emit key s (builder_dfa b1)\<rparr>"
    by (cases "builder_state_map b1 key") (auto simp: explore_body_def)
  from fr fd dom have "key \<in> U" by auto
  with closed have c: "\<forall>c \<in> set [0..<NUM_CHARS]. \<forall>k'. successor key c = Inr k' \<longrightarrow> k' \<in> U"
    by simp
  have "dom (builder_state_map (b\<lparr>builder_frontier := rest\<rparr>)) \<subseteq> U" using dom by simp
  from symbols_loop_work [OF fin this c b1]
  have "dom (builder_state_map b1) \<subseteq> U" "work U b1 \<le> work U (b\<lparr>builder_frontier := rest\<rparr>)" by blast+
  moreover have "work U (b\<lparr>builder_frontier := rest\<rparr>) < work U b" using fr by (simp add: work_def)
  ultimately show ?thesis using b' by (simp add: work_def)
qed

lemma explore_body_no_error:
  assumes inv: "explore_inv successor out key0 None b"
    and fr: "builder_frontier b \<noteq> []"
    and total: "\<forall>k \<in> dom (builder_state_map b). \<forall>c<NUM_CHARS. \<exists>k'. successor k c = Inr k'"
  shows "\<exists>b'. explore_body successor emit b = Running b'"
proof -
  from fr obtain key rest where fr: "builder_frontier b = key # rest" by (cases "builder_frontier b") auto
  from inv fr have kd: "key \<in> dom (builder_state_map b)" by (auto simp: explore_inv_def builder_wf_def)
  with total have "\<forall>c<NUM_CHARS. \<exists>k'. successor key c = Inr k'" by blast
  from symbols_loop_total [OF pop_inv [OF inv fr] le0 this]
  obtain b1 where b1: "symbols_loop successor key [0..<NUM_CHARS] (b\<lparr>builder_frontier := rest\<rparr>) = Inr b1"
    by blast
  from pop_inv [OF inv fr] b1
  have "explore_inv successor out key0 (Some (key, NUM_CHARS)) b1"
    by (rule symbols_loop_inv [OF _ le0])
  then obtain s where "builder_state_map b1 key = Some s" by (auto simp: explore_inv_def)
  with fr b1 show ?thesis by (simp add: explore_body_def)
qed

definition explore_start :: "'k \<Rightarrow> 'k builder" where
  "explore_start key0 =
     \<lparr>builder_frontier = [key0], builder_state_map = [key0 \<mapsto> 0],
      builder_dfa = \<lparr>dfa_transitions = [replicate NUM_CHARS (-1)], dfa_outputs = Map.empty,
               dfa_initial_state = 0\<rparr>\<rparr>"

lemma explore_unfold:
  "explore successor emit key0 =
     (case run_loop (\<lambda>b. builder_frontier b \<noteq> []) (explore_body successor emit) (explore_start key0) of
        None \<Rightarrow> None
      | Some (Running b) \<Rightarrow> Some (Inr (builder_dfa b))
      | Some (Returned d) \<Rightarrow> Some (Inr d)
      | Some (Raised e) \<Rightarrow> Some (Inl e))"
  by (simp add: explore_def explore_start_def add_state_def DFA_def)

lemma explore_start_inv: "explore_inv successor out key0 None (explore_start key0)"
proof -
  have "ran [key0 \<mapsto> (0::int)] = {s. 0 \<le> s \<and> s < 1}" by auto
  then show ?thesis
    by (auto simp: explore_inv_def explore_start_def builder_wf_def pending_def)
qed


definition simulates ::
  "('k \<Rightarrow> nat \<Rightarrow> error + 'k) \<Rightarrow> ('k \<Rightarrow> int set) \<Rightarrow> 'k \<Rightarrow> ('k \<rightharpoonup> int) \<Rightarrow> dfa \<Rightarrow> bool" where
  "simulates successor out key0 m d =
     (inj_on m (dom m) \<and>
      ran m = {s. 0 \<le> s \<and> s < int (length (dfa_transitions d))} \<and>
      (\<forall>row \<in> set (dfa_transitions d). length row = NUM_CHARS) \<and>
      m key0 = Some 0 \<and> dfa_initial_state d = 0 \<and>
      (\<forall>k s. m k = Some s \<longrightarrow>
         (\<forall>c<NUM_CHARS. \<exists>k'. successor k c = Inr k' \<and>
                            m k' = Some (dfa_transitions d ! nat s ! c)) \<and>
         dfa_outputs d s = emitted out k) \<and>
      dom (dfa_outputs d) \<subseteq> {s. 0 \<le> s \<and> s < int (length (dfa_transitions d))})"

lemma explore_inv_simulates:
  assumes "explore_inv successor out key0 None b" "builder_frontier b = []"
  shows "simulates successor out key0 (builder_state_map b) (builder_dfa b)"
  using assms
  unfolding explore_inv_def simulates_def builder_wf_def pending_def linked_def
  by simp

lemma explore_body_not_Returned: "explore_body successor emit b \<noteq> Returned x"
  by (simp add: explore_body_def split: list.split sum.split option.split)

lemma explore_result:
  assumes spec: "emit_spec emit out"
    and run: "explore successor emit key0 = Some (Inr d)"
  shows "\<exists>m. simulates successor out key0 m d"
proof -
  let ?P = "explore_inv successor out key0 None"
  from run obtain r where r: "run_loop (\<lambda>b. builder_frontier b \<noteq> []) (explore_body successor emit)
      (explore_start key0) = Some r"
    by (cases "run_loop (\<lambda>b. builder_frontier b \<noteq> []) (explore_body successor emit) (explore_start key0)")
       (simp_all add: explore_unfold)
  have res: "case r of
           Running s' \<Rightarrow> ?P s' \<and> \<not> builder_frontier s' \<noteq> []
         | Returned x \<Rightarrow> (\<exists>s. ?P s \<and> builder_frontier s \<noteq> [] \<and>
              explore_body successor emit s = Returned x)
         | Raised e \<Rightarrow> (\<exists>s. ?P s \<and> builder_frontier s \<noteq> [] \<and>
              explore_body successor emit s = Raised e)"
  proof (rule run_loop_rule [where P = ?P, OF r])
    show "?P (explore_start key0)" by (rule explore_start_inv)
  next
    fix s s' assume "?P s" "explore_body successor emit s = Running s'"
    then show "?P s'" by (rule explore_body_inv [OF _ spec])
  qed
  show ?thesis
  proof (cases r)
    case (Running b)
    with res have "?P b" "builder_frontier b = []" by simp_all
    then have "simulates successor out key0 (builder_state_map b) (builder_dfa b)"
      by (rule explore_inv_simulates)
    moreover from run r Running have "d = builder_dfa b" by (simp add: explore_unfold)
    ultimately show ?thesis by blast
  next
    case (Returned x)
    with res show ?thesis by (simp add: explore_body_not_Returned)
  next
    case (Raised e)
    with run r show ?thesis by (simp add: explore_unfold)
  qed
qed

lemma explore_total:
  assumes spec: "emit_spec emit out"
    and fin: "finite U" and k0: "key0 \<in> U"
    and closed: "\<forall>k \<in> U. \<forall>c<NUM_CHARS. \<exists>k' \<in> U. successor k c = Inr k'"
  shows "\<exists>d m. explore successor emit key0 = Some (Inr d) \<and>
           simulates successor out key0 m d \<and> dom m \<subseteq> U"
proof -
  let ?P = "\<lambda>b. explore_inv successor out key0 None b \<and> dom (builder_state_map b) \<subseteq> U"
  let ?body = "explore_body successor emit"
  have closed': "\<forall>k \<in> U. \<forall>c<NUM_CHARS. \<forall>k'. successor k c = Inr k' \<longrightarrow> k' \<in> U"
  proof (intro ballI allI impI)
    fix k c k' assume "k \<in> U" "c < NUM_CHARS" "successor k c = Inr k'"
    with closed show "k' \<in> U" by fastforce
  qed
  have init: "?P (explore_start key0)"
  proof
    show "explore_inv successor out key0 None (explore_start key0)" by (rule explore_start_inv)
    show "dom (builder_state_map (explore_start key0)) \<subseteq> U" using k0 by (simp add: explore_start_def)
  qed
  have step: "?P b' \<and> (b', b) \<in> measure (work U)"
    if P: "?P b" and run: "?body b = Running b'" for b b'
  proof -
    from P have inv: "explore_inv successor out key0 None b" and dom: "dom (builder_state_map b) \<subseteq> U"
      by simp_all
    from inv have fd: "set (builder_frontier b) \<subseteq> dom (builder_state_map b)"
      by (simp add: explore_inv_def builder_wf_def)
    from explore_body_work [OF fin dom fd closed' run]
    have "dom (builder_state_map b') \<subseteq> U" "work U b' < work U b" by simp_all
    moreover from inv run have "explore_inv successor out key0 None b'"
      by (rule explore_body_inv [OF _ spec])
    ultimately show ?thesis by simp
  qed
  have "\<exists>r. run_loop (\<lambda>b. builder_frontier b \<noteq> []) ?body (explore_start key0) = Some r"
  proof (rule run_loop_terminates [where P = ?P and R = "measure (work U)"])
    show "wf (measure (work U))" by simp
    show "?P (explore_start key0)" by (rule init)
  next
    fix s s' assume "?P s" "?body s = Running s'"
    then show "?P s' \<and> (s', s) \<in> measure (work U)" by (rule step)
  qed
  then obtain r where r: "run_loop (\<lambda>b. builder_frontier b \<noteq> []) ?body (explore_start key0) = Some r" ..
  have ne: "?body b \<noteq> Raised e" if P: "?P b" and fr: "builder_frontier b \<noteq> []" for b e
  proof -
    from P have inv: "explore_inv successor out key0 None b" and dom: "dom (builder_state_map b) \<subseteq> U"
      by simp_all
    have "\<forall>k \<in> dom (builder_state_map b). \<forall>c<NUM_CHARS. \<exists>k'. successor k c = Inr k'"
    proof (intro ballI allI impI)
      fix k c assume "k \<in> dom (builder_state_map b)" "c < NUM_CHARS"
      with dom closed show "\<exists>k'. successor k c = Inr k'" by blast
    qed
    from explore_body_no_error [OF inv fr this]
    obtain b' where "?body b = Running b'" by blast
    then show ?thesis by simp
  qed
  have res: "case r of
           Running s' \<Rightarrow> ?P s' \<and> \<not> builder_frontier s' \<noteq> []
         | Returned x \<Rightarrow> (\<exists>s. ?P s \<and> builder_frontier s \<noteq> [] \<and> ?body s = Returned x)
         | Raised e \<Rightarrow> (\<exists>s. ?P s \<and> builder_frontier s \<noteq> [] \<and> ?body s = Raised e)"
  proof (rule run_loop_rule [where P = ?P, OF r])
    show "?P (explore_start key0)" by (rule init)
  next
    fix s s' assume "?P s" "?body s = Running s'"
    then show "?P s'" using step by blast
  qed
  show ?thesis
  proof (cases r)
    case (Running b)
    with res have "explore_inv successor out key0 None b" "builder_frontier b = []"
      "dom (builder_state_map b) \<subseteq> U" by simp_all
    moreover from this(1,2) have "simulates successor out key0 (builder_state_map b) (builder_dfa b)"
      by (rule explore_inv_simulates)
    moreover from r Running have "explore successor emit key0 = Some (Inr (builder_dfa b))"
      by (simp add: explore_unfold)
    ultimately show ?thesis by blast
  next
    case (Returned x)
    with res show ?thesis by (simp add: explore_body_not_Returned)
  next
    case (Raised e)
    with res ne show ?thesis by auto
  qed
qed

section \<open>The language of a deterministic automaton\<close>

text \<open>
  A state is valid when it is an index of the transition table. A transition is
  defined when the entry is a valid state; the sentinel \<open>-1\<close> is none. A byte
  string is accepted when the run from the initial state ends in a state whose
  outputs are not empty, which is how \<open>is_sink_state\<close> and \<open>union\<close> read the outputs.

  \<open>dfa_invariant\<close> is the invariant of the data model: every entry is \<open>-1\<close> or a
  valid state and the initial state is valid. \<open>dfa_complete\<close> and \<open>dfa_outputs_wf\<close>
  say that no entry is the sentinel and that every stored set of tags is not empty
  and belongs to a valid state.
\<close>

definition valid_state :: "dfa \<Rightarrow> int \<Rightarrow> bool" where
  "valid_state d s = (0 \<le> s \<and> s < int (length (dfa_transitions d)))"

definition dfa_step :: "dfa \<Rightarrow> int \<Rightarrow> nat \<Rightarrow> int option" where
  "dfa_step d s c =
     (if valid_state d s \<and> c < NUM_CHARS \<and> c < length (dfa_transitions d ! nat s) \<and>
         valid_state d (dfa_transitions d ! nat s ! c)
      then Some (dfa_transitions d ! nat s ! c) else None)"

fun dfa_run :: "dfa \<Rightarrow> int \<Rightarrow> nat list \<Rightarrow> int option" where
  "dfa_run d s [] = Some s"
| "dfa_run d s (c # cs) = (case dfa_step d s c of None \<Rightarrow> None | Some t \<Rightarrow> dfa_run d t cs)"

definition dfa_accepting :: "dfa \<Rightarrow> int \<Rightarrow> bool" where
  "dfa_accepting d s = (dfa_get_outputs d s \<noteq> {})"

definition dfa_accepts :: "dfa \<Rightarrow> nat list \<Rightarrow> bool" where
  "dfa_accepts d w =
     (valid_state d (dfa_initial_state d) \<and>
      (case dfa_run d (dfa_initial_state d) w of None \<Rightarrow> False | Some s \<Rightarrow> dfa_accepting d s))"

definition dfa_invariant :: "dfa \<Rightarrow> bool" where
  "dfa_invariant d =
     ((\<forall>row \<in> set (dfa_transitions d).
         length row = NUM_CHARS \<and> (\<forall>v \<in> set row. v = -1 \<or> valid_state d v)) \<and>
      valid_state d (dfa_initial_state d))"

definition dfa_complete :: "dfa \<Rightarrow> bool" where
  "dfa_complete d =
     ((\<forall>row \<in> set (dfa_transitions d).
         length row = NUM_CHARS \<and> (\<forall>v \<in> set row. valid_state d v)) \<and>
      valid_state d (dfa_initial_state d))"

definition dfa_outputs_wf :: "dfa \<Rightarrow> bool" where
  "dfa_outputs_wf d =
     (\<forall>s tags. dfa_outputs d s = Some tags \<longrightarrow> valid_state d s \<and> tags \<noteq> {})"

fun key_run :: "('k \<Rightarrow> nat \<Rightarrow> error + 'k) \<Rightarrow> 'k \<Rightarrow> nat list \<Rightarrow> 'k option" where
  "key_run successor k [] = Some k"
| "key_run successor k (c # cs) =
     (if c < NUM_CHARS then
        (case successor k c of Inl e \<Rightarrow> None | Inr k' \<Rightarrow> key_run successor k' cs)
      else None)"

lemma simulates_complete:
  assumes "simulates successor out key0 m d"
  shows "dfa_complete d"
proof -
  let ?ts = "dfa_transitions d"
  from assms have ran: "ran m = {s. 0 \<le> s \<and> s < int (length ?ts)}"
    and len: "\<forall>row \<in> set ?ts. length row = NUM_CHARS"
    and k0: "m key0 = Some 0" and ini: "dfa_initial_state d = 0"
    and lk: "\<And>k s c. m k = Some s \<Longrightarrow> c < NUM_CHARS \<Longrightarrow>
               \<exists>k'. successor k c = Inr k' \<and> m k' = Some (?ts ! nat s ! c)"
    by (auto simp: simulates_def)
  from k0 ran have "valid_state d 0" by (auto simp: valid_state_def ran_def)
  moreover have "valid_state d v" if row: "row \<in> set ?ts" and v: "v \<in> set row" for row v
  proof -
    from row obtain i where i: "i < length ?ts" "row = ?ts ! i" by (auto simp: in_set_conv_nth)
    from v obtain c where c: "c < length row" "v = row ! c" by (auto simp: in_set_conv_nth)
    from i ran have "int i \<in> ran m" by simp
    then obtain k where k: "m k = Some (int i)" by (auto simp: ran_def)
    from c len row have "c < NUM_CHARS" by simp
    from lk [OF k this] obtain k' where "m k' = Some (?ts ! i ! c)" by auto
    then have "?ts ! i ! c \<in> ran m" by (auto simp: ran_def)
    with ran i c show ?thesis by (simp add: valid_state_def)
  qed
  ultimately show ?thesis using len ini by (simp add: dfa_complete_def)
qed

lemma simulates_outputs_wf:
  assumes "simulates successor out key0 m d"
  shows "dfa_outputs_wf d"
  unfolding dfa_outputs_wf_def
proof (intro allI impI)
  fix s tags assume o: "dfa_outputs d s = Some tags"
  from assms have ran: "ran m = {s. 0 \<le> s \<and> s < int (length (dfa_transitions d))}"
    and dom: "dom (dfa_outputs d) \<subseteq> {s. 0 \<le> s \<and> s < int (length (dfa_transitions d))}"
    and em: "\<And>k s. m k = Some s \<Longrightarrow> dfa_outputs d s = emitted out k"
    by (auto simp: simulates_def)
  from o dom have v: "valid_state d s" by (auto simp: valid_state_def)
  with ran have "s \<in> ran m" by (simp add: valid_state_def)
  then obtain k where "m k = Some s" by (auto simp: ran_def)
  from em [OF this] o have "tags \<noteq> {}" by (auto simp: emitted_def split: if_splits)
  with v show "valid_state d s \<and> tags \<noteq> {}" ..
qed

lemma simulates_get_outputs:
  assumes "simulates successor out key0 m d" "m k = Some s"
  shows "dfa_get_outputs d s = out k"
  using assms by (auto simp: simulates_def dfa_get_outputs_def emitted_def)

lemma simulates_step:
  assumes sim: "simulates successor out key0 m d" and k: "m k = Some s" and c: "c < NUM_CHARS"
  shows "\<exists>k' s'. successor k c = Inr k' \<and> dfa_step d s c = Some s' \<and> m k' = Some s'"
proof -
  let ?ts = "dfa_transitions d"
  from sim k c obtain k' where k': "successor k c = Inr k'" "m k' = Some (?ts ! nat s ! c)"
    unfolding simulates_def by blast
  from sim have ran: "ran m = {s. 0 \<le> s \<and> s < int (length ?ts)}"
    and len: "\<forall>row \<in> set ?ts. length row = NUM_CHARS" by (auto simp: simulates_def)
  from k ran have s: "valid_state d s" by (auto simp: valid_state_def ran_def)
  from k'(2) ran have s': "valid_state d (?ts ! nat s ! c)" by (auto simp: valid_state_def ran_def)
  from s have "nat s < length ?ts" by (auto simp: valid_state_def)
  then have "?ts ! nat s \<in> set ?ts" by simp
  with len have "length (?ts ! nat s) = NUM_CHARS" by blast
  with s s' c have "dfa_step d s c = Some (?ts ! nat s ! c)" by (simp add: dfa_step_def)
  with k' show ?thesis by blast
qed

lemma dfa_run_bytes: "dfa_run d s w = Some t \<Longrightarrow> \<forall>c \<in> set w. c < NUM_CHARS"
  by (induction w arbitrary: s) (auto simp: dfa_step_def split: option.splits if_splits)

lemma simulates_run:
  assumes sim: "simulates successor out key0 m d"
  shows "m k = Some s \<Longrightarrow> \<forall>c \<in> set w. c < NUM_CHARS \<Longrightarrow>
         \<exists>k' s'. key_run successor k w = Some k' \<and> dfa_run d s w = Some s' \<and> m k' = Some s'"
proof (induction w arbitrary: k s)
  case Nil
  then show ?case by simp
next
  case (Cons c w)
  then have c: "c < NUM_CHARS" by simp
  from simulates_step [OF sim Cons.prems(1) c] obtain k1 s1 where
    1: "successor k c = Inr k1" "dfa_step d s c = Some s1" "m k1 = Some s1" by blast
  from Cons.IH [OF 1(3)] Cons.prems(2) obtain k' s' where
    "key_run successor k1 w = Some k'" "dfa_run d s1 w = Some s'" "m k' = Some s'" by auto
  with 1 c show ?case by simp
qed

lemma simulates_accepts:
  assumes sim: "simulates successor out key0 m d"
  shows "dfa_accepts d w \<longleftrightarrow>
         (\<forall>c \<in> set w. c < NUM_CHARS) \<and> (\<exists>k. key_run successor key0 w = Some k \<and> out k \<noteq> {})"
proof (cases "\<forall>c \<in> set w. c < NUM_CHARS")
  case True
  from sim have k0: "m key0 = Some 0" and ini: "dfa_initial_state d = 0"
    by (auto simp: simulates_def)
  from simulates_complete [OF sim] have v: "valid_state d (dfa_initial_state d)"
    by (simp add: dfa_complete_def)
  from simulates_run [OF sim k0 True] obtain k s where
    r: "key_run successor key0 w = Some k" "dfa_run d 0 w = Some s" "m k = Some s" by blast
  from simulates_get_outputs [OF sim r(3)] have "dfa_accepting d s \<longleftrightarrow> out k \<noteq> {}"
    by (simp add: dfa_accepting_def)
  with True r v ini show ?thesis by (simp add: dfa_accepts_def)
next
  case False
  then have "dfa_run d (dfa_initial_state d) w = None"
    using dfa_run_bytes [of d "dfa_initial_state d" w] by (cases "dfa_run d (dfa_initial_state d) w") auto
  with False show ?thesis by (simp add: dfa_accepts_def)
qed

lemma union_emit_spec:
  "emit_spec (union_emit lhs rhs)
     (\<lambda>pair. dfa_get_outputs lhs (fst pair) \<union> dfa_get_outputs rhs (snd pair))"
  by (auto simp: emit_spec_def union_emit_def emitted_def Let_def)

lemma get_dfa_emit_spec:
  "emit_spec (get_dfa_emit n)
     (\<lambda>states. \<Union>s \<in> states. case nfa_outputs n s of None \<Rightarrow> {} | Some tags \<Rightarrow> tags)"
  by (auto simp: emit_spec_def get_dfa_emit_def emitted_def Let_def)

section \<open>union and get_dfa as instances of the loop\<close>

lemma py_index_nonneg:
  "0 \<le> i \<Longrightarrow> i < int (length xs) \<Longrightarrow> py_index xs i = Inr (xs ! nat i)"
  by (simp add: py_index_def)

lemma py_index_minus1:
  "xs \<noteq> [] \<Longrightarrow> py_index xs (-1) = Inr (xs ! (length xs - 1))"
  by (cases xs) (auto simp: py_index_def nat_diff_distrib')

lemma dfa_next_valid:
  assumes "valid_state d p" "c < length (dfa_transitions d ! nat p)"
  shows "dfa_next d p c = Inr (dfa_transitions d ! nat p ! c)"
  using assms by (simp add: dfa_next_def valid_state_def py_index_nonneg)

lemma dfa_next_invariant:
  assumes inv: "dfa_invariant d" and p: "-1 \<le> p" "p < int (length (dfa_transitions d))"
    and c: "c < NUM_CHARS"
  shows "\<exists>v. dfa_next d p c = Inr v \<and> -1 \<le> v \<and> v < int (length (dfa_transitions d))"
proof -
  let ?ts = "dfa_transitions d"
  from inv have ne: "?ts \<noteq> []" by (auto simp: dfa_invariant_def valid_state_def)
  obtain row where row: "py_index ?ts p = Inr row" "row \<in> set ?ts"
  proof (cases "p = -1")
    case True
    with ne have "py_index ?ts p = Inr (?ts ! (length ?ts - 1))" by (simp add: py_index_minus1)
    moreover from ne have "?ts ! (length ?ts - 1) \<in> set ?ts" by simp
    ultimately show ?thesis by (rule that)
  next
    case False
    with p have "0 \<le> p" by simp
    with p have "py_index ?ts p = Inr (?ts ! nat p)" "?ts ! nat p \<in> set ?ts"
      by (simp_all add: py_index_nonneg)
    then show ?thesis by (rule that)
  qed
  from inv row(2) have len: "length row = NUM_CHARS"
    and ent: "\<forall>v \<in> set row. v = -1 \<or> valid_state d v" by (auto simp: dfa_invariant_def)
  from len c have "py_index row (int c) = Inr (row ! c)" "row ! c \<in> set row"
    by (simp_all add: py_index_nonneg)
  with ent row(1) show ?thesis by (auto simp: dfa_next_def valid_state_def)
qed

lemma dfa_next_complete:
  assumes com: "dfa_complete d" and p: "valid_state d p" and c: "c < NUM_CHARS"
  shows "dfa_next d p c = Inr (dfa_transitions d ! nat p ! c) \<and>
         dfa_step d p c = Some (dfa_transitions d ! nat p ! c) \<and>
         valid_state d (dfa_transitions d ! nat p ! c)"
proof -
  let ?ts = "dfa_transitions d"
  from p have "nat p < length ?ts" by (auto simp: valid_state_def)
  then have "?ts ! nat p \<in> set ?ts" by simp
  with com have len: "length (?ts ! nat p) = NUM_CHARS"
    and ent: "\<forall>v \<in> set (?ts ! nat p). valid_state d v" by (auto simp: dfa_complete_def)
  from len c have "?ts ! nat p ! c \<in> set (?ts ! nat p)" by simp
  with ent have v: "valid_state d (?ts ! nat p ! c)" by blast
  with p c len show ?thesis by (simp add: dfa_next_valid dfa_step_def)
qed

definition union_out :: "dfa \<Rightarrow> dfa \<Rightarrow> int \<times> int \<Rightarrow> int set" where
  "union_out lhs rhs pair = dfa_get_outputs lhs (fst pair) \<union> dfa_get_outputs rhs (snd pair)"

definition get_dfa_out :: "nfa \<Rightarrow> int set \<Rightarrow> int set" where
  "get_dfa_out n states = (\<Union>s \<in> states. case nfa_outputs n s of None \<Rightarrow> {} | Some tags \<Rightarrow> tags)"

lemma union_emit_spec': "emit_spec (union_emit lhs rhs) (union_out lhs rhs)"
  using union_emit_spec [of lhs rhs] by (simp add: union_out_def [abs_def])

lemma get_dfa_emit_spec': "emit_spec (get_dfa_emit n) (get_dfa_out n)"
  using get_dfa_emit_spec [of n] by (simp add: get_dfa_out_def [abs_def])

lemma union_result:
  assumes "union lhs rhs = Some (Inr d)"
  shows "\<exists>m. simulates (union_successor lhs rhs) (union_out lhs rhs)
               (dfa_initial_state lhs, dfa_initial_state rhs) m d"
  using assms unfolding union_def by (rule explore_result [OF union_emit_spec'])

lemma get_dfa_result:
  assumes "get_dfa n = Some (Inr d)"
  shows "\<exists>m. simulates (get_dfa_successor n) (get_dfa_out n) {nfa_initial_state n} m d"
  using assms unfolding get_dfa_def by (rule explore_result [OF get_dfa_emit_spec'])

definition index_range :: "dfa \<Rightarrow> int set" where
  "index_range d = {s. -1 \<le> s \<and> s < int (length (dfa_transitions d))}"

lemma finite_index_range: "finite (index_range d)"
proof -
  have "index_range d = {-1..<int (length (dfa_transitions d))}" by (auto simp: index_range_def)
  then show ?thesis by simp
qed

lemma union_total:
  assumes l: "dfa_invariant lhs" and r: "dfa_invariant rhs"
  shows "\<exists>d m. union lhs rhs = Some (Inr d) \<and>
           simulates (union_successor lhs rhs) (union_out lhs rhs)
               (dfa_initial_state lhs, dfa_initial_state rhs) m d \<and>
           dom m \<subseteq> index_range lhs \<times> index_range rhs"
  unfolding union_def
proof (rule explore_total [OF union_emit_spec'])
  show "finite (index_range lhs \<times> index_range rhs)" by (simp add: finite_index_range)
  from l r show "(dfa_initial_state lhs, dfa_initial_state rhs) \<in> index_range lhs \<times> index_range rhs"
    by (auto simp: dfa_invariant_def valid_state_def index_range_def)
  show "\<forall>k \<in> index_range lhs \<times> index_range rhs. \<forall>c<NUM_CHARS.
          \<exists>k' \<in> index_range lhs \<times> index_range rhs. union_successor lhs rhs k c = Inr k'"
  proof (intro ballI allI impI)
    fix k c assume k: "k \<in> index_range lhs \<times> index_range rhs" and c: "c < NUM_CHARS"
    from k dfa_next_invariant [OF l _ _ c, of "fst k"] obtain p where
      p: "dfa_next lhs (fst k) c = Inr p" "p \<in> index_range lhs"
      by (auto simp: index_range_def)
    from k dfa_next_invariant [OF r _ _ c, of "snd k"] obtain q where
      q: "dfa_next rhs (snd k) c = Inr q" "q \<in> index_range rhs"
      by (auto simp: index_range_def)
    from p q show "\<exists>k' \<in> index_range lhs \<times> index_range rhs. union_successor lhs rhs k c = Inr k'"
      by (simp add: union_successor_def)
  qed
qed

lemma get_dfa_total:
  "\<exists>d m. get_dfa n = Some (Inr d) \<and>
         simulates (get_dfa_successor n) (get_dfa_out n) {nfa_initial_state n} m d \<and>
         dom m \<subseteq> Pow (insert (nfa_initial_state n) (nfa_targets n))"
  unfolding get_dfa_def
proof (rule explore_total [OF get_dfa_emit_spec'])
  let ?U = "Pow (insert (nfa_initial_state n) (nfa_targets n))"
  show "finite ?U" by (simp add: finite_nfa_targets)
  show "{nfa_initial_state n} \<in> ?U" by simp
  show "\<forall>k \<in> ?U. \<forall>c<NUM_CHARS. \<exists>k' \<in> ?U. get_dfa_successor n k c = Inr k'"
    using nfa_get_targets [of n] by (fastforce simp: get_dfa_successor_def)
qed


section \<open>Claim C10: the automata returned are total\<close>

definition dead_dfa :: dfa where
  "dead_dfa = \<lparr>dfa_transitions = [replicate NUM_CHARS (-1)], dfa_outputs = Map.empty,
               dfa_initial_state = 0\<rparr>"

lemma dead_dfa_invariant: "dfa_invariant dead_dfa"
  by (simp add: dfa_invariant_def dead_dfa_def valid_state_def)

text \<open>
  C10. \<open>get_dfa\<close> returns for every automaton, and the automaton it returns is total
  and well-formed: every row has \<open>NUM_CHARS\<close> entries, every entry and the initial
  state are valid states, every key of the outputs is a valid state and every value is
  a non-empty set. Whatever \<open>union\<close> returns is total and well-formed too, and \<open>union\<close>
  returns for every pair of automata that satisfy the invariant of the data model.
\<close>

theorem C10_constructed_automata_are_total:
  "(\<exists>d. get_dfa n = Some (Inr d) \<and> dfa_complete d \<and> dfa_outputs_wf d) \<and>
   (\<forall>d. union lhs rhs = Some (Inr d) \<longrightarrow> dfa_complete d \<and> dfa_outputs_wf d) \<and>
   (dfa_invariant lhs \<and> dfa_invariant rhs \<longrightarrow> (\<exists>d. union lhs rhs = Some (Inr d)))"
proof (intro conjI allI impI)
  from get_dfa_total [of n] obtain d m where g: "get_dfa n = Some (Inr d)"
    and m: "simulates (get_dfa_successor n) (get_dfa_out n) {nfa_initial_state n} m d" by blast
  from m have "dfa_complete d" by (rule simulates_complete)
  moreover from m have "dfa_outputs_wf d" by (rule simulates_outputs_wf)
  ultimately show "\<exists>d. get_dfa n = Some (Inr d) \<and> dfa_complete d \<and> dfa_outputs_wf d"
    using g by blast
next
  fix d assume "union lhs rhs = Some (Inr d)"
  from union_result [OF this] obtain m where
    m: "simulates (union_successor lhs rhs) (union_out lhs rhs)
          (dfa_initial_state lhs, dfa_initial_state rhs) m d" ..
  from m show "dfa_complete d" by (rule simulates_complete)
  from m show "dfa_outputs_wf d" by (rule simulates_outputs_wf)
next
  assume "dfa_invariant lhs \<and> dfa_invariant rhs"
  then show "\<exists>d. union lhs rhs = Some (Inr d)" using union_total [of lhs rhs] by blast
qed

text \<open>The union of the one-state automaton without transitions with itself.\<close>

theorem C10_witness:
  "dfa_invariant dead_dfa \<and>
   (\<exists>d. union dead_dfa dead_dfa = Some (Inr d) \<and> dfa_complete d \<and> dfa_outputs_wf d)"
  using C10_constructed_automata_are_total [of NFA dead_dfa dead_dfa] dead_dfa_invariant
  by blast

section \<open>The language of a non-deterministic automaton\<close>

text \<open>
  A path consumes a byte string: an \<open>\<epsilon>\<close>-transition consumes nothing, a transition on
  a byte consumes it. A state is accepting when it is a key of \<open>outputs\<close>, which is the
  test \<open>remove_epsilons\<close> makes; a string is accepted when a path from the initial state
  that consumes it ends in an accepting state.
\<close>

inductive nfa_path :: "nfa \<Rightarrow> int \<Rightarrow> nat list \<Rightarrow> int \<Rightarrow> bool" for n where
  here: "nfa_path n s [] s"
| epsilon: "t \<in> set (nfa_get n s EPSILON) \<Longrightarrow> nfa_path n t w u \<Longrightarrow> nfa_path n s w u"
| symbol: "c < NUM_CHARS \<Longrightarrow> t \<in> set (nfa_get n s (int c)) \<Longrightarrow> nfa_path n t w u \<Longrightarrow>
           nfa_path n s (c # w) u"

definition nfa_accepting :: "nfa \<Rightarrow> int \<Rightarrow> bool" where
  "nfa_accepting n s = (s \<in> dom (nfa_outputs n))"

definition nfa_accepts :: "nfa \<Rightarrow> nat list \<Rightarrow> bool" where
  "nfa_accepts n w = (\<exists>s. nfa_path n (nfa_initial_state n) w s \<and> nfa_accepting n s)"

definition nfa_tags :: "nfa \<Rightarrow> int \<Rightarrow> int set" where
  "nfa_tags n s = (case nfa_outputs n s of None \<Rightarrow> {} | Some tags \<Rightarrow> tags)"

definition epsilon_free :: "nfa \<Rightarrow> bool" where
  "epsilon_free n = (\<forall>item \<in> set (nfa_transitions n). snd (fst item) \<noteq> EPSILON)"

definition tagged :: "nfa \<Rightarrow> bool" where
  "tagged n = (\<forall>s tags. nfa_outputs n s = Some tags \<longrightarrow> tags \<noteq> {})"

fun nfa_steps :: "nfa \<Rightarrow> int set \<Rightarrow> nat list \<Rightarrow> int set" where
  "nfa_steps n S [] = S"
| "nfa_steps n S (c # w) = nfa_steps n (\<Union>s \<in> S. set (nfa_get n s (int c))) w"

lemma epsilon_free_get: "epsilon_free n \<Longrightarrow> nfa_get n s EPSILON = []"
proof (cases "map_of (nfa_transitions n) (s, EPSILON)")
  case None
  then show ?thesis by (simp add: nfa_get_def)
next
  case (Some states)
  assume "epsilon_free n"
  moreover from Some have "((s, EPSILON), states) \<in> set (nfa_transitions n)" by (rule map_of_SomeD)
  ultimately show ?thesis by (force simp: epsilon_free_def)
qed

lemma nfa_path_steps:
  assumes "nfa_path n s w u" "epsilon_free n" "s \<in> S"
  shows "u \<in> nfa_steps n S w"
  using assms
proof (induction arbitrary: S rule: nfa_path.induct)
  case (here s)
  then show ?case by simp
next
  case (epsilon t s w u)
  then show ?case by (simp add: epsilon_free_get)
next
  case (symbol c t s w u)
  from symbol.hyps(2) symbol.prems(2) have "t \<in> (\<Union>s \<in> S. set (nfa_get n s (int c)))" by blast
  from symbol.IH [OF symbol.prems(1) this] show ?case by simp
qed

lemma nfa_steps_path:
  "u \<in> nfa_steps n S w \<Longrightarrow> \<forall>c \<in> set w. c < NUM_CHARS \<Longrightarrow> \<exists>s \<in> S. nfa_path n s w u"
proof (induction w arbitrary: S)
  case Nil
  then show ?case by (auto intro: nfa_path.here)
next
  case (Cons c w)
  from Cons.prems have "u \<in> nfa_steps n (\<Union>s \<in> S. set (nfa_get n s (int c))) w" by simp
  from Cons.IH [OF this] Cons.prems(2) obtain t where
    t: "t \<in> (\<Union>s \<in> S. set (nfa_get n s (int c)))" "nfa_path n t w u" by auto
  then obtain s where "s \<in> S" "t \<in> set (nfa_get n s (int c))" by blast
  with t(2) Cons.prems(2) show ?case by (auto intro: nfa_path.symbol)
qed

lemma nfa_path_bytes: "nfa_path n s w u \<Longrightarrow> \<forall>c \<in> set w. c < NUM_CHARS"
  by (induction rule: nfa_path.induct) auto

lemma get_dfa_key_run:
  "\<forall>c \<in> set w. c < NUM_CHARS \<Longrightarrow>
   key_run (get_dfa_successor n) S w = Some (nfa_steps n S w)"
  by (induction w arbitrary: S) (simp_all add: get_dfa_successor_def)

lemma get_dfa_out_accepting:
  "tagged n \<Longrightarrow> get_dfa_out n S \<noteq> {} \<longleftrightarrow> (\<exists>s \<in> S. nfa_accepting n s)"
  by (fastforce simp: get_dfa_out_def tagged_def nfa_accepting_def split: option.splits)

lemma get_dfa_out_tags: "get_dfa_out n S = (\<Union>s \<in> S. nfa_tags n s)"
  by (simp add: get_dfa_out_def nfa_tags_def)


lemma get_dfa_accepts:
  assumes sim: "simulates (get_dfa_successor n) (get_dfa_out n) {nfa_initial_state n} m d"
    and ef: "epsilon_free n" and tg: "tagged n"
  shows "dfa_accepts d w \<longleftrightarrow> nfa_accepts n w"
proof (cases "\<forall>c \<in> set w. c < NUM_CHARS")
  case True
  have "nfa_accepts n w \<longleftrightarrow> (\<exists>s \<in> nfa_steps n {nfa_initial_state n} w. nfa_accepting n s)"
    unfolding nfa_accepts_def
    using nfa_path_steps [OF _ ef, of "nfa_initial_state n" w _ "{nfa_initial_state n}"]
      nfa_steps_path [OF _ True, of _ n "{nfa_initial_state n}"]
    by blast
  with True tg show ?thesis
    by (simp add: simulates_accepts [OF sim] get_dfa_key_run get_dfa_out_accepting)
next
  case False
  then have "\<not> nfa_accepts n w" using nfa_path_bytes [of n _ w] by (auto simp: nfa_accepts_def)
  with False show ?thesis by (simp add: simulates_accepts [OF sim])
qed

section \<open>Claim C1: the subset construction\<close>

definition C1_nfa :: nfa where
  "C1_nfa = \<lparr>nfa_next_state = 0, nfa_transitions = [], nfa_outputs = [0 \<mapsto> {}],
             nfa_initial_state = 0\<rparr>"

text \<open>
  C1 as stated fails when a state of the input is a key of \<open>outputs\<close> with the
  empty set of tags: the input accepts the empty string, and \<open>get_dfa\<close> stores outputs
  only when their union is not empty, so the automaton it returns accepts nothing.
\<close>

theorem C1_counterexample:
  "epsilon_free C1_nfa \<and> nfa_accepts C1_nfa [] \<and>
   (case get_dfa C1_nfa of Some (Inr d) \<Rightarrow> \<not> dfa_accepts d [] | _ \<Rightarrow> False)"
proof -
  have 1: "epsilon_free C1_nfa" by (simp add: epsilon_free_def C1_nfa_def)
  have "nfa_path C1_nfa 0 [] 0" by (rule nfa_path.here)
  then have 2: "nfa_accepts C1_nfa []" by (auto simp: nfa_accepts_def nfa_accepting_def C1_nfa_def)
  from get_dfa_total [of C1_nfa] obtain d m where d: "get_dfa C1_nfa = Some (Inr d)"
    and sim: "simulates (get_dfa_successor C1_nfa) (get_dfa_out C1_nfa) {nfa_initial_state C1_nfa} m d"
    by blast
  have "get_dfa_out C1_nfa {nfa_initial_state C1_nfa} = {}"
    by (simp add: get_dfa_out_def C1_nfa_def)
  then have "\<not> dfa_accepts d []" by (simp add: simulates_accepts [OF sim])
  with 1 2 d show ?thesis by simp
qed

text \<open>
  C1, amended: for every automaton without \<open>\<epsilon>\<close>-transitions in which every stored
  set of tags is not empty, \<open>get_dfa\<close> returns an automaton that accepts exactly the
  byte strings the input accepts. Every state of the result stands for a set of states
  of the input (\<open>rep\<close>): the initial state for the set of the initial state, the
  target of a transition for the union of the targets of the members; the state is
  accepting if and only if a member is, and its outputs are the union of the members'
  tags.
\<close>

theorem C1_get_dfa_language:
  assumes ef: "epsilon_free n" and tg: "tagged n"
  shows "\<exists>d rep. get_dfa n = Some (Inr d) \<and>
     (\<forall>w. dfa_accepts d w \<longleftrightarrow> nfa_accepts n w) \<and>
     rep (dfa_initial_state d) = {nfa_initial_state n} \<and>
     (\<forall>s. valid_state d s \<longrightarrow>
        (\<forall>c<NUM_CHARS. \<exists>t. dfa_step d s c = Some t \<and>
                           rep t = (\<Union>q \<in> rep s. set (nfa_get n q (int c)))) \<and>
        (dfa_accepting d s \<longleftrightarrow> (\<exists>q \<in> rep s. nfa_accepting n q)) \<and>
        dfa_get_outputs d s = (\<Union>q \<in> rep s. nfa_tags n q))"
proof -
  from get_dfa_total [of n] obtain d m where d: "get_dfa n = Some (Inr d)"
    and sim: "simulates (get_dfa_successor n) (get_dfa_out n) {nfa_initial_state n} m d"
    by blast
  define rep where "rep s = (SOME k. m k = Some s)" for s
  have rep_eq: "rep s = k" if "m k = Some s" for k s
  proof -
    from that have "m (rep s) = Some s" unfolding rep_def by (rule someI)
    moreover from sim have "inj_on m (dom m)" by (simp add: simulates_def)
    ultimately show ?thesis using that by (auto simp: inj_on_def dom_def)
  qed
  have rep_valid: "m (rep s) = Some s" if "valid_state d s" for s
  proof -
    from sim that have "s \<in> ran m" by (simp add: simulates_def valid_state_def)
    then obtain k where "m k = Some s" by (auto simp: ran_def)
    then show ?thesis unfolding rep_def by (rule someI)
  qed
  have acc: "\<forall>w. dfa_accepts d w \<longleftrightarrow> nfa_accepts n w"
    using get_dfa_accepts [OF sim ef tg] by blast
  from sim have "m {nfa_initial_state n} = Some 0" "dfa_initial_state d = 0"
    by (simp_all add: simulates_def)
  then have ini: "rep (dfa_initial_state d) = {nfa_initial_state n}" by (simp add: rep_eq)
  have st: "(\<forall>c<NUM_CHARS. \<exists>t. dfa_step d s c = Some t \<and>
                           rep t = (\<Union>q \<in> rep s. set (nfa_get n q (int c)))) \<and>
        (dfa_accepting d s \<longleftrightarrow> (\<exists>q \<in> rep s. nfa_accepting n q)) \<and>
        dfa_get_outputs d s = (\<Union>q \<in> rep s. nfa_tags n q)" if v: "valid_state d s" for s
  proof (intro conjI allI impI)
    fix c assume c: "c < NUM_CHARS"
    from simulates_step [OF sim rep_valid [OF v] c] obtain k' s' where
      "get_dfa_successor n (rep s) c = Inr k'" "dfa_step d s c = Some s'" "m k' = Some s'"
      by blast
    then show "\<exists>t. dfa_step d s c = Some t \<and> rep t = (\<Union>q \<in> rep s. set (nfa_get n q (int c)))"
      by (auto simp: get_dfa_successor_def rep_eq)
  next
    from simulates_get_outputs [OF sim rep_valid [OF v]]
    have o: "dfa_get_outputs d s = get_dfa_out n (rep s)" .
    then show "dfa_accepting d s \<longleftrightarrow> (\<exists>q \<in> rep s. nfa_accepting n q)"
      by (simp add: dfa_accepting_def get_dfa_out_accepting [OF tg])
    from o show "dfa_get_outputs d s = (\<Union>q \<in> rep s. nfa_tags n q)"
      by (simp add: get_dfa_out_tags)
  qed
  show ?thesis
  proof (intro exI conjI)
    show "get_dfa n = Some (Inr d)" by (rule d)
    show "\<forall>w. dfa_accepts d w \<longleftrightarrow> nfa_accepts n w" by (rule acc)
    show "rep (dfa_initial_state d) = {nfa_initial_state n}" by (rule ini)
    show "\<forall>s. valid_state d s \<longrightarrow>
        (\<forall>c<NUM_CHARS. \<exists>t. dfa_step d s c = Some t \<and>
                           rep t = (\<Union>q \<in> rep s. set (nfa_get n q (int c)))) \<and>
        (dfa_accepting d s \<longleftrightarrow> (\<exists>q \<in> rep s. nfa_accepting n q)) \<and>
        dfa_get_outputs d s = (\<Union>q \<in> rep s. nfa_tags n q)"
      by (intro allI impI) (rule st)
  qed
qed

text \<open>The automaton of the regular expression \<open>a\<close> with tag 1.\<close>

definition letter_nfa :: nfa where
  "letter_nfa = \<lparr>nfa_next_state = 1, nfa_transitions = [((0, 97), [1])],
                 nfa_outputs = [1 \<mapsto> {1}], nfa_initial_state = 0\<rparr>"

theorem C1_witness:
  "epsilon_free letter_nfa \<and> tagged letter_nfa \<and>
   (\<exists>d. get_dfa letter_nfa = Some (Inr d) \<and> dfa_accepts d [97])"
proof -
  have 1: "epsilon_free letter_nfa" by (simp add: epsilon_free_def letter_nfa_def EPSILON_def NUM_CHARS_def)
  have 2: "tagged letter_nfa" by (simp add: tagged_def letter_nfa_def)
  have "nfa_path letter_nfa 0 [97] 1"
    by (rule nfa_path.symbol [where t = 1])
       (simp_all add: NUM_CHARS_def nfa_get_def letter_nfa_def nfa_path.here)
  then have "nfa_accepts letter_nfa [97]"
    by (auto simp: nfa_accepts_def nfa_accepting_def letter_nfa_def)
  moreover from C1_get_dfa_language [OF 1 2]
  have "\<exists>d. get_dfa letter_nfa = Some (Inr d) \<and>
            (\<forall>w. dfa_accepts d w \<longleftrightarrow> nfa_accepts letter_nfa w)"
    by (elim exE conjE) (intro exI conjI; assumption)
  ultimately have "\<exists>d. get_dfa letter_nfa = Some (Inr d) \<and> dfa_accepts d [97]" by auto
  with 1 2 show ?thesis by simp
qed

section \<open>Claim C4: the product construction\<close>

lemma dfa_complete_invariant: "dfa_complete d \<Longrightarrow> dfa_invariant d"
  by (auto simp: dfa_complete_def dfa_invariant_def)

lemma union_successor_complete:
  assumes l: "dfa_complete lhs" and r: "dfa_complete rhs"
    and p: "valid_state lhs p" and q: "valid_state rhs q" and c: "c < NUM_CHARS"
  shows "\<exists>p' q'. union_successor lhs rhs (p, q) c = Inr (p', q') \<and>
           dfa_step lhs p c = Some p' \<and> dfa_step rhs q c = Some q' \<and>
           valid_state lhs p' \<and> valid_state rhs q'"
  using dfa_next_complete [OF l p c] dfa_next_complete [OF r q c]
  by (simp add: union_successor_def)

lemma union_key_run:
  assumes l: "dfa_complete lhs" and r: "dfa_complete rhs"
  shows "valid_state lhs p \<Longrightarrow> valid_state rhs q \<Longrightarrow> \<forall>c \<in> set w. c < NUM_CHARS \<Longrightarrow>
         \<exists>p' q'. key_run (union_successor lhs rhs) (p, q) w = Some (p', q') \<and>
                 dfa_run lhs p w = Some p' \<and> dfa_run rhs q w = Some q'"
proof (induction w arbitrary: p q)
  case Nil
  then show ?case by simp
next
  case (Cons c w)
  then have c: "c < NUM_CHARS" by simp
  from union_successor_complete [OF l r Cons.prems(1,2) c] obtain p1 q1 where
    1: "union_successor lhs rhs (p, q) c = Inr (p1, q1)" "dfa_step lhs p c = Some p1"
       "dfa_step rhs q c = Some q1" "valid_state lhs p1" "valid_state rhs q1" by blast
  from Cons.IH [OF 1(4,5)] Cons.prems(3) obtain p' q' where
    "key_run (union_successor lhs rhs) (p1, q1) w = Some (p', q')"
    "dfa_run lhs p1 w = Some p'" "dfa_run rhs q1 w = Some q'" by auto
  with 1 c show ?case by simp
qed

lemma union_total_complete:
  assumes l: "dfa_complete lhs" and r: "dfa_complete rhs"
  shows "\<exists>d m. union lhs rhs = Some (Inr d) \<and>
           simulates (union_successor lhs rhs) (union_out lhs rhs)
               (dfa_initial_state lhs, dfa_initial_state rhs) m d \<and>
           dom m \<subseteq> {p. valid_state lhs p} \<times> {q. valid_state rhs q}"
  unfolding union_def
proof (rule explore_total [OF union_emit_spec'])
  let ?U = "{p. valid_state lhs p} \<times> {q. valid_state rhs q}"
  have "?U \<subseteq> index_range lhs \<times> index_range rhs"
    by (auto simp: index_range_def valid_state_def)
  then show "finite ?U" by (rule finite_subset) (simp add: finite_index_range)
  from l r show "(dfa_initial_state lhs, dfa_initial_state rhs) \<in> ?U"
    by (simp add: dfa_complete_def)
  show "\<forall>k \<in> ?U. \<forall>c<NUM_CHARS. \<exists>k' \<in> ?U. union_successor lhs rhs k c = Inr k'"
  proof (intro ballI allI impI)
    fix k c assume k: "k \<in> ?U" and c: "c < NUM_CHARS"
    obtain p q where pq: "k = (p, q)" by (cases k)
    with k have "valid_state lhs p" "valid_state rhs q" by simp_all
    from union_successor_complete [OF l r this c] pq
    show "\<exists>k' \<in> ?U. union_successor lhs rhs k c = Inr k'" by auto
  qed
qed

lemma union_accepts:
  assumes l: "dfa_complete lhs" and r: "dfa_complete rhs"
    and sim: "simulates (union_successor lhs rhs) (union_out lhs rhs)
               (dfa_initial_state lhs, dfa_initial_state rhs) m d"
  shows "dfa_accepts d w \<longleftrightarrow> dfa_accepts lhs w \<or> dfa_accepts rhs w"
proof (cases "\<forall>c \<in> set w. c < NUM_CHARS")
  case True
  from l r have v: "valid_state lhs (dfa_initial_state lhs)" "valid_state rhs (dfa_initial_state rhs)"
    by (simp_all add: dfa_complete_def)
  from union_key_run [OF l r v True] obtain p' q' where
    "key_run (union_successor lhs rhs) (dfa_initial_state lhs, dfa_initial_state rhs) w = Some (p', q')"
    "dfa_run lhs (dfa_initial_state lhs) w = Some p'"
    "dfa_run rhs (dfa_initial_state rhs) w = Some q'" by blast
  note run = this
  from True run(1) have "dfa_accepts d w \<longleftrightarrow> union_out lhs rhs (p', q') \<noteq> {}"
    by (simp add: simulates_accepts [OF sim])
  moreover from v run(2) have "dfa_accepts lhs w \<longleftrightarrow> dfa_get_outputs lhs p' \<noteq> {}"
    by (simp add: dfa_accepts_def dfa_accepting_def)
  moreover from v run(3) have "dfa_accepts rhs w \<longleftrightarrow> dfa_get_outputs rhs q' \<noteq> {}"
    by (simp add: dfa_accepts_def dfa_accepting_def)
  ultimately show ?thesis by (simp add: union_out_def)
next
  case False
  then have "dfa_run lhs (dfa_initial_state lhs) w = None" "dfa_run rhs (dfa_initial_state rhs) w = None"
    using dfa_run_bytes [of lhs "dfa_initial_state lhs" w] dfa_run_bytes [of rhs "dfa_initial_state rhs" w]
    by (cases "dfa_run lhs (dfa_initial_state lhs) w"; cases "dfa_run rhs (dfa_initial_state rhs) w"; auto)+
  then have "\<not> dfa_accepts lhs w" "\<not> dfa_accepts rhs w" by (simp_all add: dfa_accepts_def)
  moreover from False have "\<not> dfa_accepts d w" by (simp add: simulates_accepts [OF sim])
  ultimately show ?thesis by simp
qed

lemma simulates_rep:
  assumes sim: "simulates successor out key0 m d"
  shows "\<exists>rep. (\<forall>k s. m k = Some s \<longrightarrow> rep s = k) \<and>
               (\<forall>s. valid_state d s \<longrightarrow> m (rep s) = Some s)"
proof (intro exI conjI allI impI)
  let ?rep = "\<lambda>s. SOME k. m k = Some s"
  fix k s assume k: "m k = Some s"
  then have "m (?rep s) = Some s" by (rule someI)
  moreover from sim have "inj_on m (dom m)" by (simp add: simulates_def)
  ultimately show "?rep s = k" using k by (intro inj_onD [of m "dom m"]) auto
next
  let ?rep = "\<lambda>s. SOME k. m k = Some s"
  fix s assume "valid_state d s"
  with sim have "s \<in> ran m" by (simp add: simulates_def valid_state_def)
  then obtain k where "m k = Some s" by (auto simp: ran_def)
  then show "m (?rep s) = Some s" by (rule someI)
qed

text \<open>
  An automaton with the sentinel in its table: state 0 has no transition, state 1 (not
  reachable) is accepting with a transition to itself on byte 0. Both automata accept
  nothing.
\<close>

definition sentinel_dfa :: dfa where
  "sentinel_dfa = \<lparr>dfa_transitions = [replicate NUM_CHARS (-1), (replicate NUM_CHARS (-1))[0 := 1]],
             dfa_outputs = [1 \<mapsto> {7}], dfa_initial_state = 0\<rparr>"

lemma sentinel_dfa_invariant: "dfa_invariant sentinel_dfa"
proof -
  have "set ((replicate NUM_CHARS (-1 :: int))[0 := 1]) \<subseteq> {1, -1}"
    using set_update_subset_insert [of "replicate NUM_CHARS (-1 :: int)" 0 1] by auto
  then show ?thesis
    by (auto simp: dfa_invariant_def sentinel_dfa_def valid_state_def)
qed

text \<open>
  C4 as stated fails for automata with the sentinel \<open>-1\<close> in their tables. \<open>union\<close>
  indexes the table with the sentinel, and Python's \<open>transitions[-1]\<close> is the row of
  the last state: the pair \<open>(-1, -1)\<close> continues with the rows of the last states
  instead of being dead. Here the union accepts the string of two zero bytes, which
  neither automaton accepts.
\<close>

theorem C4_counterexample:
  "dfa_invariant sentinel_dfa \<and> dfa_invariant dead_dfa \<and>
   \<not> dfa_accepts sentinel_dfa [0, 0] \<and> \<not> dfa_accepts dead_dfa [0, 0] \<and>
   (case union sentinel_dfa dead_dfa of Some (Inr d) \<Rightarrow> dfa_accepts d [0, 0] | _ \<Rightarrow> False)"
proof -
  have 1: "\<not> dfa_accepts sentinel_dfa [0, 0]"
    by (simp add: dfa_accepts_def dfa_step_def valid_state_def sentinel_dfa_def NUM_CHARS_def)
  have 2: "\<not> dfa_accepts dead_dfa [0, 0]"
    by (simp add: dfa_accepts_def dfa_step_def valid_state_def dead_dfa_def NUM_CHARS_def)
  from union_total [OF sentinel_dfa_invariant dead_dfa_invariant] obtain d m where
    d: "union sentinel_dfa dead_dfa = Some (Inr d)"
    and sim: "simulates (union_successor sentinel_dfa dead_dfa) (union_out sentinel_dfa dead_dfa)
               (dfa_initial_state sentinel_dfa, dfa_initial_state dead_dfa) m d" by blast
  have "key_run (union_successor sentinel_dfa dead_dfa) (0, 0) [0, 0] = Some (1, -1)"
    by (simp add: union_successor_def dfa_next_def py_index_def sentinel_dfa_def dead_dfa_def NUM_CHARS_def)
  moreover have "union_out sentinel_dfa dead_dfa (1, -1) \<noteq> {}"
    by (simp add: union_out_def dfa_get_outputs_def sentinel_dfa_def)
  moreover have "dfa_initial_state sentinel_dfa = 0" "dfa_initial_state dead_dfa = 0"
    by (simp_all add: sentinel_dfa_def dead_dfa_def)
  ultimately have "dfa_accepts d [0, 0]"
    using simulates_accepts [OF sim, of "[0, 0]"] by (simp add: NUM_CHARS_def)
  with 1 2 d sentinel_dfa_invariant dead_dfa_invariant show ?thesis by simp
qed

text \<open>
  C4, amended: for every pair of automata whose tables hold valid states only (no
  sentinel) and whose initial states are valid, \<open>union\<close> returns an automaton that
  accepts exactly the byte strings one of the two accepts. Every state of the result
  stands for a pair of valid states (\<open>rep\<close>): the initial state for the pair of the
  initial states, transitions are componentwise, the state is accepting if and only
  if a component is, and its outputs are the union of the components' outputs.
\<close>

theorem C4_union_language:
  assumes l: "dfa_complete lhs" and r: "dfa_complete rhs"
  shows "\<exists>d rep. union lhs rhs = Some (Inr d) \<and>
     (\<forall>w. dfa_accepts d w \<longleftrightarrow> dfa_accepts lhs w \<or> dfa_accepts rhs w) \<and>
     rep (dfa_initial_state d) = (dfa_initial_state lhs, dfa_initial_state rhs) \<and>
     (\<forall>s. valid_state d s \<longrightarrow>
        valid_state lhs (fst (rep s)) \<and> valid_state rhs (snd (rep s)) \<and>
        (\<forall>c<NUM_CHARS. \<exists>t. dfa_step d s c = Some t \<and>
            dfa_step lhs (fst (rep s)) c = Some (fst (rep t)) \<and>
            dfa_step rhs (snd (rep s)) c = Some (snd (rep t))) \<and>
        (dfa_accepting d s \<longleftrightarrow>
            dfa_accepting lhs (fst (rep s)) \<or> dfa_accepting rhs (snd (rep s))) \<and>
        dfa_get_outputs d s =
            dfa_get_outputs lhs (fst (rep s)) \<union> dfa_get_outputs rhs (snd (rep s)))"
proof -
  from union_total_complete [OF l r] obtain d m where d: "union lhs rhs = Some (Inr d)"
    and sim: "simulates (union_successor lhs rhs) (union_out lhs rhs)
               (dfa_initial_state lhs, dfa_initial_state rhs) m d"
    and dom: "dom m \<subseteq> {p. valid_state lhs p} \<times> {q. valid_state rhs q}" by blast
  from simulates_rep [OF sim] obtain rep where
    rep_eq: "\<And>k s. m k = Some s \<Longrightarrow> rep s = k"
    and rep_valid: "\<And>s. valid_state d s \<Longrightarrow> m (rep s) = Some s" by blast
  have acc: "\<forall>w. dfa_accepts d w \<longleftrightarrow> dfa_accepts lhs w \<or> dfa_accepts rhs w"
    using union_accepts [OF l r sim] by blast
  from sim have "m (dfa_initial_state lhs, dfa_initial_state rhs) = Some 0" "dfa_initial_state d = 0"
    by (simp_all add: simulates_def)
  then have ini: "rep (dfa_initial_state d) = (dfa_initial_state lhs, dfa_initial_state rhs)"
    by (simp add: rep_eq)
  have st: "valid_state lhs (fst (rep s)) \<and> valid_state rhs (snd (rep s)) \<and>
        (\<forall>c<NUM_CHARS. \<exists>t. dfa_step d s c = Some t \<and>
            dfa_step lhs (fst (rep s)) c = Some (fst (rep t)) \<and>
            dfa_step rhs (snd (rep s)) c = Some (snd (rep t))) \<and>
        (dfa_accepting d s \<longleftrightarrow>
            dfa_accepting lhs (fst (rep s)) \<or> dfa_accepting rhs (snd (rep s))) \<and>
        dfa_get_outputs d s =
            dfa_get_outputs lhs (fst (rep s)) \<union> dfa_get_outputs rhs (snd (rep s))"
    if v: "valid_state d s" for s
  proof -
    obtain p q where pq: "rep s = (p, q)" by (cases "rep s")
    from rep_valid [OF v] dom pq have vp: "valid_state lhs p" and vq: "valid_state rhs q" by auto
    have steps: "\<exists>t. dfa_step d s c = Some t \<and>
            dfa_step lhs (fst (rep s)) c = Some (fst (rep t)) \<and>
            dfa_step rhs (snd (rep s)) c = Some (snd (rep t))" if c: "c < NUM_CHARS" for c
    proof -
      from simulates_step [OF sim rep_valid [OF v] c] obtain k' s' where
        1: "union_successor lhs rhs (rep s) c = Inr k'" "dfa_step d s c = Some s'" "m k' = Some s'"
        by blast
      from union_successor_complete [OF l r vp vq c] 1(1) pq
      have "dfa_step lhs p c = Some (fst k')" "dfa_step rhs q c = Some (snd k')" by auto
      with 1 pq show ?thesis by (simp add: rep_eq)
    qed
    from simulates_get_outputs [OF sim rep_valid [OF v]]
    have o: "dfa_get_outputs d s = dfa_get_outputs lhs p \<union> dfa_get_outputs rhs q"
      by (simp add: union_out_def pq)
    from vp vq steps o show ?thesis by (simp add: pq dfa_accepting_def)
  qed
  show ?thesis
  proof (intro exI conjI)
    show "union lhs rhs = Some (Inr d)" by (rule d)
    show "\<forall>w. dfa_accepts d w \<longleftrightarrow> dfa_accepts lhs w \<or> dfa_accepts rhs w" by (rule acc)
    show "rep (dfa_initial_state d) = (dfa_initial_state lhs, dfa_initial_state rhs)" by (rule ini)
    show "\<forall>s. valid_state d s \<longrightarrow>
        valid_state lhs (fst (rep s)) \<and> valid_state rhs (snd (rep s)) \<and>
        (\<forall>c<NUM_CHARS. \<exists>t. dfa_step d s c = Some t \<and>
            dfa_step lhs (fst (rep s)) c = Some (fst (rep t)) \<and>
            dfa_step rhs (snd (rep s)) c = Some (snd (rep t))) \<and>
        (dfa_accepting d s \<longleftrightarrow>
            dfa_accepting lhs (fst (rep s)) \<or> dfa_accepting rhs (snd (rep s))) \<and>
        dfa_get_outputs d s =
            dfa_get_outputs lhs (fst (rep s)) \<union> dfa_get_outputs rhs (snd (rep s))"
      by (intro allI impI) (rule st)
  qed
qed

text \<open>The one-state automaton that accepts every byte string with one tag.\<close>

definition loop_dfa :: "int \<Rightarrow> dfa" where
  "loop_dfa tag = \<lparr>dfa_transitions = [replicate NUM_CHARS 0], dfa_outputs = [0 \<mapsto> {tag}],
                   dfa_initial_state = 0\<rparr>"

lemma loop_dfa_complete: "dfa_complete (loop_dfa tag)"
  by (simp add: dfa_complete_def loop_dfa_def valid_state_def)

theorem C4_witness:
  "dfa_complete (loop_dfa 1) \<and> dfa_complete (loop_dfa 2) \<and>
   (\<exists>d. union (loop_dfa 1) (loop_dfa 2) = Some (Inr d) \<and> dfa_accepts d [] \<and>
        dfa_get_outputs d (dfa_initial_state d) = {1, 2})"
proof -
  from C4_union_language [OF loop_dfa_complete loop_dfa_complete, of 1 2]
  obtain d rep where d: "union (loop_dfa 1) (loop_dfa 2) = Some (Inr d)"
    and acc: "\<forall>w. dfa_accepts d w \<longleftrightarrow> dfa_accepts (loop_dfa 1) w \<or> dfa_accepts (loop_dfa 2) w"
    and ini: "rep (dfa_initial_state d) = (dfa_initial_state (loop_dfa 1), dfa_initial_state (loop_dfa 2))"
    and st: "\<forall>s. valid_state d s \<longrightarrow>
        valid_state (loop_dfa 1) (fst (rep s)) \<and> valid_state (loop_dfa 2) (snd (rep s)) \<and>
        (\<forall>c<NUM_CHARS. \<exists>t. dfa_step d s c = Some t \<and>
            dfa_step (loop_dfa 1) (fst (rep s)) c = Some (fst (rep t)) \<and>
            dfa_step (loop_dfa 2) (snd (rep s)) c = Some (snd (rep t))) \<and>
        (dfa_accepting d s \<longleftrightarrow>
            dfa_accepting (loop_dfa 1) (fst (rep s)) \<or> dfa_accepting (loop_dfa 2) (snd (rep s))) \<and>
        dfa_get_outputs d s =
            dfa_get_outputs (loop_dfa 1) (fst (rep s)) \<union> dfa_get_outputs (loop_dfa 2) (snd (rep s))"
    by (elim exE conjE)
  have a: "dfa_accepts (loop_dfa 1) []"
    by (simp add: dfa_accepts_def dfa_accepting_def dfa_get_outputs_def loop_dfa_def valid_state_def)
  with acc have acc': "dfa_accepts d []" by blast
  then have "valid_state d (dfa_initial_state d)" by (simp add: dfa_accepts_def)
  with st have "dfa_get_outputs d (dfa_initial_state d) =
      dfa_get_outputs (loop_dfa 1) (fst (rep (dfa_initial_state d))) \<union>
      dfa_get_outputs (loop_dfa 2) (snd (rep (dfa_initial_state d)))" by blast
  then have "dfa_get_outputs d (dfa_initial_state d) = {1, 2}"
    by (auto simp: ini dfa_get_outputs_def loop_dfa_def)
  with d acc' loop_dfa_complete show ?thesis by blast
qed

section \<open>Claim C6: sink states\<close>

lemma run_loop_unfold:
  "run_loop guard body s =
     (if guard s then
        (case body s of
           Running s' \<Rightarrow> run_loop guard body s'
         | Returned r \<Rightarrow> Some (Returned r)
         | Raised e \<Rightarrow> Some (Raised e))
      else Some (Running s))"
proof -
  have stop: "\<not> b st \<Longrightarrow> while_option b c st = Some st" for b c and st :: "('a, 'b) loop"
    by (subst while_option_unfold) simp
  show ?thesis
    unfolding run_loop_def
    by (subst while_option_unfold) (simp add: stop split: loop.split)
qed

lemma sink_symbols_eq:
  "\<forall>c \<in> set cs. dfa_next d x c = Inr (f c) \<Longrightarrow>
   sink_symbols d x ex cs fr = Inr (fr \<union> (f ` set cs - ex))"
  by (induction cs arbitrary: fr) auto

definition dfa_reachable :: "dfa \<Rightarrow> int \<Rightarrow> int \<Rightarrow> bool" where
  "dfa_reachable d s t = (\<exists>w. dfa_run d s w = Some t)"

lemma dfa_run_append:
  "dfa_run d s (w @ v) = (case dfa_run d s w of None \<Rightarrow> None | Some t \<Rightarrow> dfa_run d t v)"
  by (induction w arbitrary: s) (auto split: option.splits)

lemma dfa_reachable_refl: "dfa_reachable d s s"
  unfolding dfa_reachable_def by (rule exI [of _ "[]"]) simp

lemma dfa_reachable_step:
  assumes "dfa_reachable d s t" "dfa_step d t c = Some u"
  shows "dfa_reachable d s u"
proof -
  from assms(1) obtain w where "dfa_run d s w = Some t" by (auto simp: dfa_reachable_def)
  with assms(2) have "dfa_run d s (w @ [c]) = Some u" by (simp add: dfa_run_append)
  then show ?thesis unfolding dfa_reachable_def ..
qed

lemma dfa_run_closed:
  assumes closed: "\<And>x c u. x \<in> E \<Longrightarrow> dfa_step d x c = Some u \<Longrightarrow> u \<in> E"
  shows "dfa_run d s w = Some t \<Longrightarrow> s \<in> E \<Longrightarrow> t \<in> E"
proof (induction w arbitrary: s)
  case Nil
  then show ?case by simp
next
  case (Cons c w)
  from Cons.prems(1) obtain u where u: "dfa_step d s c = Some u" "dfa_run d u w = Some t"
    by (auto split: option.splits)
  from closed [OF Cons.prems(2) u(1)] Cons.IH [OF u(2)] show ?case by blast
qed

definition sink_inv :: "dfa \<Rightarrow> int \<Rightarrow> int set \<times> int set \<Rightarrow> bool" where
  "sink_inv d s = (\<lambda>(ex, fr).
     ex \<inter> fr = {} \<and> s \<in> ex \<union> fr \<and>
     (\<forall>x \<in> ex \<union> fr. valid_state d x \<and> dfa_reachable d s x) \<and>
     (\<forall>x \<in> ex. \<not> dfa_accepting d x \<and>
        (\<forall>c u. dfa_step d x c = Some u \<longrightarrow> u \<in> ex \<union> fr)))"

lemma finite_valid_states: "finite {x. valid_state d x}"
proof -
  have "{x. valid_state d x} = {0..<int (length (dfa_transitions d))}"
    by (auto simp: valid_state_def)
  then show ?thesis by simp
qed

lemma sink_body_complete:
  assumes com: "dfa_complete d"
    and pop: "\<forall>S. finite S \<and> S \<noteq> {} \<longrightarrow> pop S \<in> S"
    and inv: "sink_inv d s (ex, fr)" and ne: "fr \<noteq> {}"
  shows "(dfa_accepting d (pop fr) \<and> dfa_reachable d s (pop fr) \<and>
          sink_body pop d (ex, fr) = Returned False) \<or>
         (\<exists>fr'. sink_body pop d (ex, fr) =
              Running (insert (pop fr) ex, fr') \<and>
            sink_inv d s (insert (pop fr) ex, fr') \<and>
            pop fr \<notin> ex \<and> valid_state d (pop fr))"
proof -
  let ?x = "pop fr"
  let ?f = "\<lambda>c. dfa_transitions d ! nat ?x ! c"
  let ?E = "insert ?x ex"
  let ?F = "(fr - {?x}) \<union> (?f ` set [0..<NUM_CHARS] - ?E)"
  from inv have "fr \<subseteq> {x. valid_state d x}" by (auto simp: sink_inv_def)
  then have "finite fr" by (rule finite_subset) (rule finite_valid_states)
  with pop ne have x: "?x \<in> fr" by blast
  with inv have vx: "valid_state d ?x" and rx: "dfa_reachable d s ?x" and nx: "?x \<notin> ex"
    by (auto simp: sink_inv_def)
  show ?thesis
  proof (cases "dfa_accepting d ?x")
    case True
    with rx show ?thesis by (simp add: sink_body_def Let_def dfa_accepting_def)
  next
    case False
    have nxt: "\<forall>c \<in> set [0..<NUM_CHARS]. dfa_next d ?x c = Inr (?f c)"
      using dfa_next_complete [OF com vx] by simp
    have body: "sink_body pop d (ex, fr) = Running (?E, ?F)"
      using False sink_symbols_eq [OF nxt, of ?E "fr - {?x}"]
      by (simp add: sink_body_def Let_def dfa_accepting_def)
    have step: "dfa_step d ?x c = Some u \<Longrightarrow> u \<in> ?E \<union> ?F" for c u
    proof -
      assume s: "dfa_step d ?x c = Some u"
      then have "c < NUM_CHARS" "u = ?f c" by (auto simp: dfa_step_def split: if_splits)
      then have "u \<in> ?f ` set [0..<NUM_CHARS]" by simp
      then show ?thesis by blast
    qed
    have new: "valid_state d u \<and> dfa_reachable d s u" if u: "u \<in> ?f ` set [0..<NUM_CHARS]" for u
    proof -
      from u obtain c where c: "c < NUM_CHARS" "u = ?f c" by auto
      from dfa_next_complete [OF com vx c(1)] c(2)
      have "dfa_step d ?x c = Some u" "valid_state d u" by simp_all
      with rx show ?thesis by (auto intro: dfa_reachable_step)
    qed
    have i1: "?E \<inter> ?F = {}" using inv nx by (auto simp: sink_inv_def)
    have i2: "s \<in> ?E \<union> ?F" using inv x by (auto simp: sink_inv_def)
    have i3: "\<forall>y \<in> ?E \<union> ?F. valid_state d y \<and> dfa_reachable d s y"
    proof
      fix y assume "y \<in> ?E \<union> ?F"
      then have "y = ?x \<or> y \<in> ex \<union> fr \<or> y \<in> ?f ` set [0..<NUM_CHARS]" by blast
      with inv new vx rx show "valid_state d y \<and> dfa_reachable d s y"
        by (auto simp: sink_inv_def)
    qed
    have i4: "\<forall>y \<in> ?E. \<not> dfa_accepting d y \<and>
        (\<forall>c u. dfa_step d y c = Some u \<longrightarrow> u \<in> ?E \<union> ?F)"
    proof
      fix y assume y: "y \<in> ?E"
      show "\<not> dfa_accepting d y \<and> (\<forall>c u. dfa_step d y c = Some u \<longrightarrow> u \<in> ?E \<union> ?F)"
      proof (cases "y = ?x")
        case True
        with False step show ?thesis by blast
      next
        case ny: False
        with y have ye: "y \<in> ex" by simp
        with inv have na: "\<not> dfa_accepting d y"
          and st: "\<And>c u. dfa_step d y c = Some u \<Longrightarrow> u \<in> ex \<union> fr"
          by (auto simp: sink_inv_def)
        have "u \<in> ?E \<union> ?F" if "dfa_step d y c = Some u" for c u
          using st [OF that] by auto
        with na show ?thesis by blast
      qed
    qed
    have "sink_inv d s (?E, ?F)"
      unfolding sink_inv_def prod.case by (intro conjI i1 i2 i3 i4)
    with body nx vx show ?thesis by blast
  qed
qed

lemma is_sink_state_complete:
  assumes com: "dfa_complete d" and s: "valid_state d s"
    and pop: "\<forall>S. finite S \<and> S \<noteq> {} \<longrightarrow> pop S \<in> S"
  shows "is_sink_state pop d s =
           Some (Inr (\<not> (\<exists>t. dfa_reachable d s t \<and> dfa_accepting d t)))"
proof -
  let ?guard = "\<lambda>(ex, fr). fr \<noteq> ({} :: int set)"
  let ?body = "sink_body pop d"
  let ?P = "sink_inv d s"
  let ?R = "measure (\<lambda>(ex, fr). card ({x. valid_state d x} - ex))"
  have init: "?P ({}, {s})" using s by (simp add: sink_inv_def dfa_reachable_refl)
  have step: "?P st' \<and> (st', st) \<in> ?R" if "?P st" "?guard st" "?body st = Running st'" for st st'
  proof -
    obtain ex fr where st: "st = (ex, fr)" by (cases st)
    from that(2) st have ne: "fr \<noteq> {}" by simp
    from sink_body_complete [OF com pop that(1) [unfolded st] ne]
    have "\<exists>fr'. sink_body pop d (ex, fr) = Running (insert (pop fr) ex, fr') \<and>
            sink_inv d s (insert (pop fr) ex, fr') \<and> pop fr \<notin> ex \<and> valid_state d (pop fr)"
    proof
      assume "dfa_accepting d (pop fr) \<and> dfa_reachable d s (pop fr) \<and>
          sink_body pop d (ex, fr) = Returned False"
      with that(3) st show ?thesis by simp
    qed
    then obtain fr' where b: "sink_body pop d (ex, fr) = Running (insert (pop fr) ex, fr')"
      and inv': "sink_inv d s (insert (pop fr) ex, fr')"
      and nx: "pop fr \<notin> ex" and vx: "valid_state d (pop fr)" by blast
    from b that(3) st have st': "st' = (insert (pop fr) ex, fr')" by simp
    have "card ({x. valid_state d x} - insert (pop fr) ex) <
          card ({x. valid_state d x} - ex)"
      using nx vx finite_valid_states [of d]
      by (intro psubset_card_mono) auto
    with st st' inv' show ?thesis by simp
  qed
  have "\<exists>r. run_loop ?guard ?body ({}, {s}) = Some r"
  proof (rule run_loop_terminates [where P = ?P and R = ?R])
    show "wf ?R" by simp
    show "?P ({}, {s})" by (rule init)
  next
    fix st st' assume "?P st" "?guard st" "?body st = Running st'"
    then show "?P st' \<and> (st', st) \<in> ?R" by (rule step)
  qed
  then obtain r where r: "run_loop ?guard ?body ({}, {s}) = Some r" ..
  have res: "case r of
           Running s' \<Rightarrow> ?P s' \<and> \<not> ?guard s'
         | Returned x \<Rightarrow> (\<exists>s. ?P s \<and> ?guard s \<and> ?body s = Returned x)
         | Raised e \<Rightarrow> (\<exists>s. ?P s \<and> ?guard s \<and> ?body s = Raised e)"
  proof (rule run_loop_rule [where P = ?P, OF r])
    show "?P ({}, {s})" by (rule init)
  next
    fix st st' assume "?P st" "?guard st" "?body st = Running st'"
    then have "?P st' \<and> (st', st) \<in> ?R" by (rule step)
    then show "?P st'" ..
  qed
  show ?thesis
  proof (cases r)
    case (Running st)
    obtain ex fr where st: "st = (ex, fr)" by (cases st)
    from res Running st have inv: "sink_inv d s (ex, {})" and fr: "fr = {}" by auto
    have all: "t \<in> ex" if "dfa_reachable d s t" for t
    proof -
      from that obtain w where w: "dfa_run d s w = Some t" by (auto simp: dfa_reachable_def)
      from inv have "s \<in> ex" by (simp add: sink_inv_def)
      moreover from inv have "\<And>x c u. x \<in> ex \<Longrightarrow> dfa_step d x c = Some u \<Longrightarrow> u \<in> ex"
        by (auto simp: sink_inv_def)
      ultimately show ?thesis using dfa_run_closed [OF _ w, of ex] by blast
    qed
    have "\<not> (\<exists>t. dfa_reachable d s t \<and> dfa_accepting d t)"
    proof
      assume "\<exists>t. dfa_reachable d s t \<and> dfa_accepting d t"
      then obtain t where t: "dfa_reachable d s t" "dfa_accepting d t" by blast
      from all [OF t(1)] inv have "\<not> dfa_accepting d t" by (simp add: sink_inv_def)
      with t(2) show False by simp
    qed
    with r Running show ?thesis by (simp add: is_sink_state_def)
  next
    case (Returned b)
    with res obtain st where st: "?P st" "?guard st" "?body st = Returned b" by auto
    obtain ex fr where eq: "st = (ex, fr)" by (cases st)
    from st(2) eq have ne: "fr \<noteq> {}" by simp
    from sink_body_complete [OF com pop st(1) [unfolded eq] ne]
    have "b = False \<and> dfa_accepting d (pop fr) \<and> dfa_reachable d s (pop fr)"
    proof
      assume "dfa_accepting d (pop fr) \<and> dfa_reachable d s (pop fr) \<and>
          sink_body pop d (ex, fr) = Returned False"
      with st(3) eq show ?thesis by simp
    next
      assume "\<exists>fr'. sink_body pop d (ex, fr) = Running (insert (pop fr) ex, fr') \<and>
            sink_inv d s (insert (pop fr) ex, fr') \<and> pop fr \<notin> ex \<and> valid_state d (pop fr)"
      then obtain fr' where "sink_body pop d (ex, fr) = Running (insert (pop fr) ex, fr')" by blast
      with st(3) eq show ?thesis by simp
    qed
    then have "b = False" "\<exists>t. dfa_reachable d s t \<and> dfa_accepting d t" by blast+
    with r Returned show ?thesis by (simp add: is_sink_state_def)
  next
    case (Raised e)
    with res obtain st where st: "?P st" "?guard st" "?body st = Raised e" by auto
    obtain ex fr where eq: "st = (ex, fr)" by (cases st)
    from st(2) eq have ne: "fr \<noteq> {}" by simp
    from sink_body_complete [OF com pop st(1) [unfolded eq] ne]
    have False
    proof
      assume "dfa_accepting d (pop fr) \<and> dfa_reachable d s (pop fr) \<and>
          sink_body pop d (ex, fr) = Returned False"
      with st(3) eq show False by simp
    next
      assume "\<exists>fr'. sink_body pop d (ex, fr) = Running (insert (pop fr) ex, fr') \<and>
            sink_inv d s (insert (pop fr) ex, fr') \<and> pop fr \<notin> ex \<and> valid_state d (pop fr)"
      then obtain fr' where "sink_body pop d (ex, fr) = Running (insert (pop fr) ex, fr')" by blast
      with st(3) eq show False by simp
    qed
    then show ?thesis ..
  qed
qed

text \<open>
  C6, amended: for every automaton whose table holds valid states only (no sentinel),
  every valid state \<open>s\<close> and every way \<open>pop\<close> of taking an element out of a set,
  \<open>is_sink_state\<close> returns \<open>True\<close> if and only if no accepting state (a state with
  non-empty outputs) is reachable from \<open>s\<close> over the transitions, \<open>s\<close> itself included.
\<close>

theorem C6_is_sink_state:
  assumes "dfa_complete d" and "valid_state d s"
    and "\<forall>S. finite S \<and> S \<noteq> {} \<longrightarrow> pop S \<in> S"
  shows "is_sink_state pop d s =
           Some (Inr (\<not> (\<exists>t. dfa_reachable d s t \<and> dfa_accepting d t)))"
  using assms by (rule is_sink_state_complete)

text \<open>The state of the one-state automaton that accepts everything is no sink.\<close>

theorem C6_witness:
  "dfa_complete (loop_dfa 1) \<and> valid_state (loop_dfa 1) 0 \<and>
   is_sink_state Min (loop_dfa 1) 0 = Some (Inr False)"
proof -
  have v: "valid_state (loop_dfa 1) 0" by (simp add: valid_state_def loop_dfa_def)
  have p: "\<forall>S :: int set. finite S \<and> S \<noteq> {} \<longrightarrow> Min S \<in> S" by simp
  have "dfa_accepting (loop_dfa 1) 0"
    by (simp add: dfa_accepting_def dfa_get_outputs_def loop_dfa_def)
  then have "\<exists>t. dfa_reachable (loop_dfa 1) 0 t \<and> dfa_accepting (loop_dfa 1) t"
    using dfa_reachable_refl by blast
  with C6_is_sink_state [OF loop_dfa_complete v p] loop_dfa_complete v show ?thesis by simp
qed

lemma sentinel_next_0:
  "\<forall>c \<in> set [0..<NUM_CHARS]. dfa_next sentinel_dfa 0 c = Inr ((\<lambda>c. -1) c)"
  by (simp add: dfa_next_def py_index_def sentinel_dfa_def)

lemma sentinel_next_minus1:
  "\<forall>c \<in> set [0..<NUM_CHARS]. dfa_next sentinel_dfa (-1) c = Inr ((\<lambda>c. if c = 0 then 1 else -1) c)"
  by (simp add: dfa_next_def py_index_def sentinel_dfa_def)

lemma sentinel_unreachable: "dfa_reachable sentinel_dfa 0 t \<Longrightarrow> t = 0"
proof -
  assume "dfa_reachable sentinel_dfa 0 t"
  then obtain w where w: "dfa_run sentinel_dfa 0 w = Some t" by (auto simp: dfa_reachable_def)
  show ?thesis
  proof (cases w)
    case Nil
    with w show ?thesis by simp
  next
    case (Cons c cs)
    have "dfa_step sentinel_dfa 0 c = None"
      by (auto simp: dfa_step_def sentinel_dfa_def valid_state_def)
    with w Cons show ?thesis by simp
  qed
qed

text \<open>
  C6 as stated fails for automata with the sentinel \<open>-1\<close> in their tables:
  \<open>is_sink_state\<close> puts the sentinel on the frontier like a state, and Python's
  \<open>transitions[-1]\<close> is the row of the last state. In the automaton below no accepting
  state is reachable from state 0, which has no transition at all; the loop goes from
  0 to \<open>-1\<close>, reads the row of state 1 there, reaches the accepting state 1 and returns
  \<open>False\<close>. The frontier holds one element at every turn, so the result does not
  depend on \<open>pop\<close>.
\<close>

theorem C6_counterexample:
  "dfa_invariant sentinel_dfa \<and> valid_state sentinel_dfa 0 \<and>
   \<not> (\<exists>t. dfa_reachable sentinel_dfa 0 t \<and> dfa_accepting sentinel_dfa t) \<and>
   is_sink_state Min sentinel_dfa 0 = Some (Inr False)"
proof -
  have v: "valid_state sentinel_dfa 0" by (simp add: valid_state_def sentinel_dfa_def)
  have na: "\<not> dfa_accepting sentinel_dfa 0"
    by (simp add: dfa_accepting_def dfa_get_outputs_def sentinel_dfa_def)
  have nr: "\<not> (\<exists>t. dfa_reachable sentinel_dfa 0 t \<and> dfa_accepting sentinel_dfa t)"
    using sentinel_unreachable na by blast
  have img0: "(\<lambda>c::nat. -1 :: int) ` {0..<NUM_CHARS} = {-1}"
    by (simp add: NUM_CHARS_def image_constant_conv)
  have img1: "(\<lambda>c::nat. if c = 0 then 1 else -1 :: int) ` {0..<NUM_CHARS} = {1, -1}"
  proof
    show "(\<lambda>c::nat. if c = 0 then 1 else -1 :: int) ` {0..<NUM_CHARS} \<subseteq> {1, -1}" by auto
    have m0: "(0::nat) \<in> {0..<NUM_CHARS}" and m1: "(1::nat) \<in> {0..<NUM_CHARS}"
      by (simp_all add: NUM_CHARS_def)
    have "(if (0::nat) = 0 then 1 else -1 :: int) \<in> (\<lambda>c::nat. if c = 0 then 1 else -1 :: int) ` {0..<NUM_CHARS}"
      using m0 by (rule imageI)
    moreover have "(if (1::nat) = 0 then 1 else -1 :: int) \<in> (\<lambda>c::nat. if c = 0 then 1 else -1 :: int) ` {0..<NUM_CHARS}"
      using m1 by (rule imageI)
    ultimately have "(1::int) \<in> (\<lambda>c::nat. if c = 0 then 1 else -1 :: int) ` {0..<NUM_CHARS}"
      "(-1::int) \<in> (\<lambda>c::nat. if c = 0 then 1 else -1 :: int) ` {0..<NUM_CHARS}"
      by simp_all
    then show "{1, -1} \<subseteq> (\<lambda>c::nat. if c = 0 then 1 else -1 :: int) ` {0..<NUM_CHARS}"
      by simp
  qed
  have t0: "dfa_get_outputs sentinel_dfa 0 = {}" "dfa_get_outputs sentinel_dfa (-1) = {}"
    "dfa_get_outputs sentinel_dfa 1 \<noteq> {}"
    by (simp_all add: dfa_get_outputs_def sentinel_dfa_def)
  have "sink_symbols sentinel_dfa 0 {0} [0..<NUM_CHARS] {} =
      Inr ({} \<union> ((\<lambda>c::nat. -1 :: int) ` set [0..<NUM_CHARS] - {0}))"
    by (rule sink_symbols_eq [OF sentinel_next_0])
  also have "{} \<union> ((\<lambda>c::nat. -1 :: int) ` set [0..<NUM_CHARS] - {0}) = {-1}"
    by (simp only: set_upt img0) simp
  finally have s1: "sink_symbols sentinel_dfa 0 {0} [0..<NUM_CHARS] {} = Inr {-1}" .
  have "sink_symbols sentinel_dfa (-1) {-1, 0} [0..<NUM_CHARS] {} =
      Inr ({} \<union> ((\<lambda>c::nat. if c = 0 then 1 else -1 :: int) ` set [0..<NUM_CHARS] - {-1, 0}))"
    by (rule sink_symbols_eq [OF sentinel_next_minus1])
  also have "{} \<union> ((\<lambda>c::nat. if c = 0 then 1 else -1 :: int) ` set [0..<NUM_CHARS] - {-1, 0}) = {1}"
    by (simp only: set_upt img1) auto
  finally have s2: "sink_symbols sentinel_dfa (-1) {-1, 0} [0..<NUM_CHARS] {} = Inr {1}" .
  have b1: "sink_body Min sentinel_dfa ({}, {0}) = Running ({0}, {-1})"
    by (simp add: sink_body_def t0 s1 Let_def)
  have b2: "sink_body Min sentinel_dfa ({0}, {-1}) = Running ({-1, 0}, {1})"
    by (simp add: sink_body_def t0 s2 Let_def)
  have b3: "sink_body Min sentinel_dfa ({-1, 0}, {1}) = Returned False"
    by (simp add: sink_body_def t0)
  have "run_loop (\<lambda>(ex, fr). fr \<noteq> {}) (sink_body Min sentinel_dfa) ({}, {0}) = Some (Returned False)"
    by (simp add: run_loop_unfold [of _ _ "({}, {0})"] run_loop_unfold [of _ _ "({0}, {-1})"]
        run_loop_unfold [of _ _ "({-1, 0}, {1})"] b1 b2 b3)
  then have "is_sink_state Min sentinel_dfa 0 = Some (Inr False)" by (simp add: is_sink_state_def)
  with sentinel_dfa_invariant v nr show ?thesis by simp
qed

section \<open>Claim C3: the outputs of a state without \<open>\<epsilon>\<close>-transitions\<close>

text \<open>
  State 0 reaches state 1 by an \<open>\<epsilon>\<close>-transition; both are accepting, with the tags 1
  and 2.
\<close>

definition C3_nfa :: nfa where
  "C3_nfa = \<lparr>nfa_next_state = 1, nfa_transitions = [((0, 256), [1])],
             nfa_outputs = [0 \<mapsto> {1}, 1 \<mapsto> {2}], nfa_initial_state = 0\<rparr>"

lemma C3_closure: "epsilon_closure C3_nfa 0 = {0, 1}"
  by (simp add: epsilon_closure_def C3_nfa_def EPSILON_def NUM_CHARS_def insert_commute)

lemma C3_fields:
  "nfa_transitions C3_nfa = [((0, 256), [1])]"
  "nfa_outputs C3_nfa = [0 \<mapsto> {1}, 1 \<mapsto> {2}]"
  "nfa_initial_state C3_nfa = 0"
  by (simp_all add: C3_nfa_def)

text \<open>
  C3 (the code at the failing input). The closure of state 0 is \<open>{0, 1}\<close>, both members
  are accepting, and the new state gets the tags of one of them only: each accepting
  member overwrites \<open>nfa.outputs[new_state]\<close>, so the member visited last wins. In
  ascending order that is state 1 with \<open>{2}\<close>, in descending order state 0 with \<open>{1}\<close>;
  in neither the union \<open>{1, 2}\<close>.
\<close>

theorem C3_outputs_are_overwritten:
  "nfa_outputs (remove_epsilons sorted_list_of_set C3_nfa) 0 = Some {2} \<and>
   nfa_outputs (remove_epsilons (\<lambda>S. rev (sorted_list_of_set S)) C3_nfa) 0 = Some {1}"
  by (simp add: remove_epsilons_def get_new_state_def NFA_def nfa_add_state_def remove_loop_Cons
      remove_loop_Nil visit_state_def C3_closure visit_intermediate_def visit_item_def
      C3_fields EPSILON_def NUM_CHARS_def)

end
